theory Spec2Isabelle
  imports Main "HOL-Library.Word" "HOL-Library.Multiset"
begin

section \<open>Data model\<close>

text \<open>
  Go's \<open>int64\<close> is a 64-bit word read in two's complement: \<open>+\<close> wraps, and the
  comparisons of the source are the signed ones (\<open><s\<close>, \<open>\<le>s\<close>).
  \<open>layers.LinkType\<close> is a \<open>uint8\<close>; \<open>LinkTypeNull\<close> is its zero value.
\<close>

type_synonym int64 = "64 word"
type_synonym LinkType = "8 word"

definition LinkTypeNull :: LinkType where
  "LinkTypeNull = 0"

definition LinkTypeEthernet :: LinkType where
  "LinkTypeEthernet = 1"

definition maxSnaplen :: "32 word" where
  "maxSnaplen = 262144"

text \<open>\<open>oneHour := int64(time.Nanosecond * time.Hour)\<close>\<close>

definition oneHour :: int64 where
  "oneHour = 3600000000000"

text \<open>
  \<open>gopacket.CaptureInfo\<close>: the time stamp is kept as the value of
  \<open>Timestamp.UnixNano()\<close>, the only way the program reads it.
\<close>

record CaptureInfo =
  UnixNano :: int64
  CaptureLength :: int
  Length :: int

text \<open>
  \<open>minheap.Packet\<close>. The two pointers \<open>Reader\<close> and \<open>InputFile\<close> always travel
  together and point to the objects of one opened input; they are one handle,
  an index into the table of opened inputs of the state below.
\<close>

record Packet =
  Timestamp :: int64
  CaptureInfo :: CaptureInfo
  Data :: "8 word list"
  Reader :: nat

text \<open>
  The environment of a run. What \<open>reader.ReadPacketData()\<close> yields on an input is a
  finite sequence of results (a record, or an error other than \<open>io.EOF\<close>), after
  which every call yields \<open>io.EOF\<close>: a capture file is finite and each call consumes
  bytes of it. A path either cannot be opened, or opens but has no valid file
  header (\<open>pcapgo.NewReader\<close> fails), or is a capture with a link type.
\<close>

datatype read_result = Rec "8 word list" CaptureInfo | DecodeError

datatype input_file = OpenError | HeaderError | Pcap LinkType "read_result list"

record env =
  fs :: "string \<Rightarrow> input_file"
  create_fails :: "string \<Rightarrow> bool"
  write_fails :: "nat \<Rightarrow> bool"

text \<open>
  One event per \<open>log.Printf\<close> site of the source. The program prints them only when
  \<open>verbose\<close> is set; the model records them always and the printed log is the
  trace filtered by the flag (\<open>printed_log\<close> below).
\<close>

datatype event =
    EvBanner
  | EvWritingTo string
  | EvSkipOpen string
  | EvSkipReader string
  | EvSkipNoPacket nat
  | EvMerging nat
  | EvDone nat
  | EvSkipDecodeError nat
  | EvSkipIllegalTimestamp nat CaptureInfo int64
  | EvSkipEmpty nat
  | EvWriteError

text \<open>
  An opened input: the results its reader has not delivered yet, and whether
  \<open>inputFile.Close()\<close> was called.
\<close>

record file_state =
  unread :: "read_result list"
  closed :: bool

text \<open>
  The state of a run: the package-level variable \<open>previousTimestamp\<close>, the opened
  inputs, the heap, the calls of \<open>writer.WritePacket\<close> made so far (each with
  whether it succeeded) and the trace.
\<close>

record state =
  previousTimestamp :: int64
  files :: "file_state list"
  minTimeHeap :: "Packet list"
  writes :: "(Packet \<times> bool) list"
  trace :: "event list"

section \<open>The heap\<close>

text \<open>
  Modelled from the spec: the package \<open>minheap\<close> (the type \<open>PacketHeap\<close> and its
  methods \<open>Len\<close>, \<open>Less\<close>, \<open>Swap\<close>, \<open>Push\<close>, \<open>Pop\<close>) is not among the sources.
  The spec (4.2) has a binary min-heap keyed by the time stamp, ascending;
  \<open>main.go\<close> uses it as a slice (\<open>minTimeHeap[0]\<close>, \<open>Len()\<close>) through Go's
  \<open>container/heap\<close>, whose \<open>up\<close>, \<open>down\<close>, \<open>Push\<close> and \<open>Pop\<close> are followed here.
  So \<open>Less\<close> compares time stamps, \<open>Swap\<close> exchanges two slots, the method
  \<open>Push\<close> appends and the method \<open>Pop\<close> removes the last slot.
\<close>

definition Less :: "Packet list \<Rightarrow> nat \<Rightarrow> nat \<Rightarrow> bool" where
  "Less h i j = (Timestamp (h ! i) <s Timestamp (h ! j))"

definition Swap :: "Packet list \<Rightarrow> nat \<Rightarrow> nat \<Rightarrow> Packet list" where
  "Swap h i j = h[i := h ! j, j := h ! i]"

text \<open>
  \<open>up(h, j)\<close>: the parent of \<open>j\<close> is \<open>(j - 1) / 2\<close>, which Go truncates to \<open>0\<close> for
  \<open>j = 0\<close>, as the subtraction on \<open>nat\<close> does.
\<close>

function up :: "Packet list \<Rightarrow> nat \<Rightarrow> Packet list" where
  "up h j = (let i = (j - 1) div 2 in
     if i = j \<or> \<not> Less h j i then h else up (Swap h i j) i)"
  by pat_completeness auto
termination
  by (relation "measure (\<lambda>(h, j). j)") auto

declare up.simps [simp del]

text \<open>\<open>down(h, i0, n)\<close>; the result \<open>i > i0\<close> is not used by \<open>Pop\<close>.\<close>

function down :: "Packet list \<Rightarrow> nat \<Rightarrow> nat \<Rightarrow> Packet list" where
  "down h i n = (let j1 = 2 * i + 1 in
     if j1 \<ge> n then h
     else let j = (if j1 + 1 < n \<and> Less h (j1 + 1) j1 then j1 + 1 else j1) in
       if \<not> Less h j i then h else down (Swap h i j) j n)"
  by pat_completeness auto
termination
  by (relation "measure (\<lambda>(h, i, n). n - i)") auto

declare down.simps [simp del]

definition heap_Push :: "Packet list \<Rightarrow> Packet \<Rightarrow> Packet list" where
  "heap_Push h x = up (h @ [x]) (length (h @ [x]) - 1)"

text \<open>
  \<open>heap.Pop\<close>: called only under \<open>minTimeHeap.Len() > 0\<close> (it panics on an empty
  heap in Go; \<open>last\<close> and \<open>butlast\<close> are then not meaningful).
\<close>

definition heap_Pop :: "Packet list \<Rightarrow> Packet \<times> Packet list" where
  "heap_Pop h = (let n = length h - 1;
                     h' = down (Swap h 0 n) 0 n
                 in (last h', butlast h'))"

section \<open>Reading and writing\<close>

text \<open>
  \<open>readNext\<close>, on the results the reader of handle \<open>h\<close> has still to deliver, with
  the value of \<open>previousTimestamp\<close> at the call. The loop of the source ends at
  \<open>io.EOF\<close> (result \<open>None\<close>, the file closed) or at the first record it does not
  skip. It returns the packet, the file's new state and the events.
\<close>

fun readNext :: "int64 \<Rightarrow> bool \<Rightarrow> nat \<Rightarrow> read_result list
    \<Rightarrow> (Packet option \<times> file_state) \<times> event list" where
  "readNext prev isInit h [] =
     ((None, \<lparr>unread = [], closed = True\<rparr>), [EvDone h])"
| "readNext prev isInit h (DecodeError # rs) =
     (let (r, ev) = readNext prev isInit h rs in (r, EvSkipDecodeError h # ev))"
| "readNext prev isInit h (Rec data captureInfo # rs) =
     (let timestamp = UnixNano captureInfo in
      if \<not> isInit \<and> timestamp + oneHour <s prev then
        (let (r, ev) = readNext prev isInit h rs
         in (r, EvSkipIllegalTimestamp h captureInfo prev # ev))
      else if length data = 0 then
        (let (r, ev) = readNext prev isInit h rs in (r, EvSkipEmpty h # ev))
      else
        ((Some \<lparr>Timestamp = timestamp, CaptureInfo = captureInfo,
                 Data = data, Reader = h\<rparr>,
          \<lparr>unread = rs, closed = False\<rparr>), []))"

text \<open>
  The call \<open>readNext(p.Reader, p.InputFile, verbose, isInit)\<close> in a state. Go
  pointers do not dangle, so a handle is always below \<open>length (files s)\<close> in a run
  (the handles in the heap are those of the open inputs, \<open>one_per_source\<close>
  below); the guard only keeps the model total.
\<close>

definition readNext_at :: "nat \<Rightarrow> bool \<Rightarrow> state \<Rightarrow> Packet option \<times> state" where
  "readNext_at h isInit s =
     (if h < length (files s) then
        (let ((r, f), ev) = readNext (previousTimestamp s) isInit h (unread (files s ! h))
         in (r, s\<lparr>files := (files s)[h := f], trace := trace s @ ev\<rparr>))
      else (None, s))"

text \<open>
  \<open>write\<close> of the source (the name is an Isar keyword): the environment
  decides whether the call of \<open>WritePacket\<close> fails; the
  error is only logged and \<open>previousTimestamp\<close> is assigned in both cases.
\<close>

definition write_packet :: "env \<Rightarrow> Packet \<Rightarrow> state \<Rightarrow> state" where
  "write_packet e packetToWrite s =
     (let err = write_fails e (length (writes s)) in
      s\<lparr>writes := writes s @ [(packetToWrite, \<not> err)],
        trace := trace s @ (if err then [EvWriteError] else []),
        previousTimestamp := Timestamp packetToWrite\<rparr>)"

section \<open>Initialization\<close>

text \<open>
  The body of the \<open>range\<close> loop of \<open>initHeapWithInputFiles\<close> for one path, on the
  local \<open>linkType\<close> and the state. (\<open>totalInputSizeBytes\<close> only feeds a log line
  and is left out.)
\<close>

definition initOne :: "env \<Rightarrow> string \<Rightarrow> LinkType \<times> state \<Rightarrow> LinkType \<times> state" where
  "initOne e inputPcapPath ls =
     (case ls of (linkType, s) \<Rightarrow>
      (case fs e inputPcapPath of
         OpenError \<Rightarrow> (linkType, s\<lparr>trace := trace s @ [EvSkipOpen inputPcapPath]\<rparr>)
       | HeaderError \<Rightarrow> (linkType, s\<lparr>trace := trace s @ [EvSkipReader inputPcapPath]\<rparr>)
       | Pcap readerLinkType rs \<Rightarrow>
           (let linkType' = (if linkType = LinkTypeNull then readerLinkType
                             else if linkType \<noteq> readerLinkType then LinkTypeEthernet
                             else linkType);
                h = length (files s);
                ((r, f), ev) = readNext (previousTimestamp s) True h rs
            in (case r of
                  None \<Rightarrow>
                    (linkType', s\<lparr>files := files s @ [f],
                                  trace := trace s @ ev @ [EvSkipNoPacket h]\<rparr>)
                | Some nextPacket \<Rightarrow>
                    (linkType',
                     s\<lparr>files := files s @ [f],
                       trace := trace s @ ev,
                       minTimeHeap := heap_Push (minTimeHeap s) nextPacket,
                       previousTimestamp :=
                         (if previousTimestamp s = 0 then Timestamp nextPacket
                          else if Timestamp nextPacket <s previousTimestamp s
                               then Timestamp nextPacket
                          else previousTimestamp s)\<rparr>)))))"

fun initLoop :: "env \<Rightarrow> string list \<Rightarrow> LinkType \<times> state \<Rightarrow> LinkType \<times> state" where
  "initLoop e [] ls = ls"
| "initLoop e (p # ps) ls = initLoop e ps (initOne e p ls)"

datatype error = CmdFlagsError | CannotInitializeMerge | CannotOpenForWriting

text \<open>
  \<open>initHeapWithInputFiles\<close> returns \<open>(linkType, nil)\<close> from its only \<open>return\<close>.
\<close>

definition initHeapWithInputFiles ::
    "env \<Rightarrow> string list \<Rightarrow> state \<Rightarrow> (LinkType \<times> error option) \<times> state" where
  "initHeapWithInputFiles e inputFilePaths s =
     (case initLoop e inputFilePaths (LinkTypeNull, s) of
        (linkType, s') \<Rightarrow>
          ((linkType, None),
           s'\<lparr>trace := trace s' @ [EvMerging (length (minTimeHeap s'))]\<rparr>))"

section \<open>The heap keeps its elements\<close>

lemma length_Swap [simp]: "length (Swap h i j) = length h"
  by (simp add: Swap_def)

lemma mset_Swap [simp]: "i < length h \<Longrightarrow> j < length h \<Longrightarrow> mset (Swap h i j) = mset h"
  by (simp add: Swap_def mset_swap)

lemma length_up [simp]: "length (up h j) = length h"
  by (induction h j rule: up.induct) (subst up.simps, simp add: Let_def)

lemma mset_up [simp]: "j < length h \<Longrightarrow> mset (up h j) = mset h"
proof (induction h j rule: up.induct)
  case (1 h j)
  have "(j - 1) div 2 < length h" using "1.prems" by auto
  with 1 show ?case by (subst up.simps) (simp add: Let_def)
qed

lemma length_down [simp]: "length (down h i n) = length h"
  by (induction h i n rule: down.induct) (subst down.simps, simp add: Let_def)

lemma mset_down [simp]: "n \<le> length h \<Longrightarrow> mset (down h i n) = mset h"
proof (induction h i n rule: down.induct)
  case (1 h i n)
  then show ?case by (subst down.simps) (auto simp: Let_def)
qed

lemma nth_down_beyond: "n \<le> k \<Longrightarrow> down h i n ! k = h ! k"
proof (induction h i n rule: down.induct)
  case (1 h i n)
  then show ?case by (subst down.simps) (auto simp: Let_def Swap_def)
qed

lemma length_heap_Push [simp]: "length (heap_Push h x) = Suc (length h)"
  by (simp add: heap_Push_def)

lemma mset_heap_Push [simp]: "mset (heap_Push h x) = add_mset x (mset h)"
  by (simp add: heap_Push_def)

lemma heap_Pop_mset:
  "h \<noteq> [] \<Longrightarrow> heap_Pop h = (x, h') \<Longrightarrow> mset h = add_mset x (mset h')"
proof -
  assume ne: "h \<noteq> []" and pop: "heap_Pop h = (x, h')"
  define n where "n = length h - 1"
  define g where "g = down (Swap h 0 n) 0 n"
  have n: "n < length h" using ne by (simp add: n_def)
  have lg: "length g = length h" by (simp add: g_def)
  then have gne: "g \<noteq> []" using ne by auto
  have "0 < length h" using ne by simp
  then have "mset g = mset h" using n by (simp add: g_def)
  moreover have "x = last g" "h' = butlast g"
    using pop by (simp_all add: heap_Pop_def Let_def n_def g_def)
  moreover have "mset g = add_mset (last g) (mset (butlast g))"
    using gne by (metis append_butlast_last_id mset.simps(2) mset_append union_mset_add_mset_right add.right_neutral mset.simps(1))
  ultimately show ?thesis by simp
qed

lemma heap_Pop_length:
  "heap_Pop h = (x, h') \<Longrightarrow> length h' = length h - 1"
  by (auto simp: heap_Pop_def Let_def)

section \<open>The merge loop\<close>

lemma readNext_shorter:
  "readNext prev isInit h rs = ((Some p, f), ev) \<Longrightarrow> length (unread f) < length rs"
proof (induction prev isInit h rs arbitrary: ev rule: readNext.induct)
  case (1 prev isInit h)
  then show ?case by simp
next
  case (2 prev isInit h rs)
  then show ?case by (auto split: prod.splits)
next
  case (3 prev isInit h data captureInfo rs)
  then show ?case by (auto simp: Let_def split: prod.splits if_splits)
qed

lemma readNext_at_shorter:
  "readNext_at h isInit s = (Some p, s') \<Longrightarrow>
   length (unread (files s' ! h)) < length (unread (files s ! h))"
  by (auto simp: readNext_at_def split: if_splits prod.splits dest: readNext_shorter)

lemma files_write [simp]: "files (write_packet e p s) = files s"
  by (simp add: write_packet_def Let_def)

text \<open>
  The inner \<open>for\<close> loop of \<open>joincap\<close>: read from the source of the packet written
  last; stop at \<open>io.EOF\<close>; write a packet that is not later than
  \<open>earliestHeapTime\<close> and go on; push any other packet and stop.
\<close>

function innerLoop :: "env \<Rightarrow> Packet \<Rightarrow> int64 \<Rightarrow> state \<Rightarrow> state" where
  "innerLoop e earliestPacket earliestHeapTime s =
     (case readNext_at (Reader earliestPacket) False s of
        (None, s') \<Rightarrow> s'
      | (Some nextPacket, s') \<Rightarrow>
          if Timestamp nextPacket \<le>s earliestHeapTime
          then innerLoop e earliestPacket earliestHeapTime (write_packet e nextPacket s')
          else s'\<lparr>minTimeHeap := heap_Push (minTimeHeap s') nextPacket\<rparr>)"
  by pat_completeness auto
termination
  by (relation "measure (\<lambda>(e, p, t, s). length (unread (files s ! Reader p)))")
     (auto dest: readNext_at_shorter [OF sym])

declare innerLoop.simps [simp del]

text \<open>One pass of the outer loop, entered with a non-empty heap.\<close>

definition outerBody :: "env \<Rightarrow> state \<Rightarrow> state" where
  "outerBody e s =
     (case heap_Pop (minTimeHeap s) of
        (earliestPacket, h') \<Rightarrow>
          (let s1 = write_packet e earliestPacket (s\<lparr>minTimeHeap := h'\<rparr>);
               earliestHeapTime = (if length h' > 0 then Timestamp (h' ! 0) else 0)
           in innerLoop e earliestPacket earliestHeapTime s1))"

text \<open>
  The outer loop ends: each pass takes one packet off the heap, and the inner loop
  puts at most one back, after reading at least one result from a file.
\<close>

definition total_unread :: "state \<Rightarrow> nat" where
  "total_unread s = sum_list (map (\<lambda>f. length (unread f)) (files s))"

lemma readNext_not_longer:
  "readNext prev isInit h rs = ((r, f), ev) \<Longrightarrow> length (unread f) \<le> length rs"
proof (induction prev isInit h rs arbitrary: ev rule: readNext.induct)
  case (1 prev isInit h)
  then show ?case by auto
next
  case (2 prev isInit h rs)
  then show ?case by (auto split: prod.splits)
next
  case (3 prev isInit h data captureInfo rs)
  then show ?case by (auto simp: Let_def split: prod.splits if_splits)
qed

lemma sum_list_map_update:
  "k < length xs \<Longrightarrow>
   sum_list (map f (xs[k := y])) + f (xs ! k) = sum_list (map f xs) + (f y :: nat)"
proof (induction xs arbitrary: k)
  case Nil
  then show ?case by simp
next
  case (Cons a xs)
  then show ?case by (cases k) auto
qed

lemma readNext_at_total:
  assumes "readNext_at h isInit s = (r, s')"
  shows "total_unread s' \<le> total_unread s"
    and "r \<noteq> None \<Longrightarrow> total_unread s' < total_unread s"
    and "minTimeHeap s' = minTimeHeap s"
    and "length (files s') = length (files s)"
proof -
  show "minTimeHeap s' = minTimeHeap s" "length (files s') = length (files s)"
    using assms by (auto simp: readNext_at_def split: if_splits prod.splits)
  show "total_unread s' \<le> total_unread s"
  proof (cases "h < length (files s)")
    case True
    obtain r0 f ev where rn: "readNext (previousTimestamp s) isInit h (unread (files s ! h)) = ((r0, f), ev)"
      by (metis prod.exhaust)
    with assms True have s': "files s' = (files s)[h := f]"
      by (auto simp: readNext_at_def)
    from sum_list_map_update [OF True, of "\<lambda>f. length (unread f)" f] readNext_not_longer [OF rn]
    show ?thesis by (simp add: total_unread_def s')
  next
    case False
    with assms show ?thesis by (simp add: readNext_at_def)
  qed
  show "total_unread s' < total_unread s" if "r \<noteq> None"
  proof (cases "h < length (files s)")
    case True
    obtain r0 f ev where rn: "readNext (previousTimestamp s) isInit h (unread (files s ! h)) = ((r0, f), ev)"
      by (metis prod.exhaust)
    with assms True have s': "files s' = (files s)[h := f]" and r0: "r0 = r"
      by (auto simp: readNext_at_def)
    from that r0 obtain p where "r0 = Some p" by auto
    with rn have "length (unread f) < length (unread (files s ! h))"
      by (auto dest: readNext_shorter)
    with sum_list_map_update [OF True, of "\<lambda>f. length (unread f)" f]
    show ?thesis by (simp add: total_unread_def s')
  next
    case False
    with assms that show ?thesis by (simp add: readNext_at_def)
  qed
qed

definition run_size :: "state \<Rightarrow> nat" where
  "run_size s = length (minTimeHeap s) + total_unread s"

lemma total_unread_write [simp]: "total_unread (write_packet e p s) = total_unread s"
  by (simp add: total_unread_def)

lemma minTimeHeap_write [simp]: "minTimeHeap (write_packet e p s) = minTimeHeap s"
  by (simp add: write_packet_def Let_def)

lemma innerLoop_size: "run_size (innerLoop e p t s) \<le> run_size s"
proof (induction e p t s rule: innerLoop.induct)
  case (1 e p t s)
  obtain r s' where rd: "readNext_at (Reader p) False s = (r, s')" by (metis prod.exhaust)
  note tot = readNext_at_total [OF rd]
  show ?case
  proof (cases r)
    case None
    with rd tot show ?thesis by (subst innerLoop.simps) (simp add: run_size_def)
  next
    case (Some q)
    show ?thesis
    proof (cases "Timestamp q \<le>s t")
      case True
      have "run_size (innerLoop e p t (write_packet e q s')) \<le> run_size (write_packet e q s')"
        using "1.IH" [OF rd [symmetric, unfolded Some] refl True] .
      also have "\<dots> \<le> run_size s" using tot(1,3) by (simp add: run_size_def)
      finally show ?thesis using rd Some True by (subst innerLoop.simps) simp
    next
      case False
      with rd Some tot show ?thesis
        by (subst innerLoop.simps) (simp add: run_size_def total_unread_def)
    qed
  qed
qed

lemma outerBody_size:
  "minTimeHeap s \<noteq> [] \<Longrightarrow> run_size (outerBody e s) < run_size s"
proof -
  assume ne: "minTimeHeap s \<noteq> []"
  obtain x h' where pop: "heap_Pop (minTimeHeap s) = (x, h')" by (metis prod.exhaust)
  have "length h' < length (minTimeHeap s)"
    using heap_Pop_length [OF pop] ne by (cases "minTimeHeap s") auto
  then have "run_size (write_packet e x (s\<lparr>minTimeHeap := h'\<rparr>)) < run_size s"
    by (simp add: run_size_def total_unread_def)
  with innerLoop_size show ?thesis
    unfolding outerBody_def pop by (simp add: Let_def) (meson le_less_trans)
qed

text \<open>The outer \<open>for minTimeHeap.Len() > 0\<close> loop.\<close>

function mergeLoop :: "env \<Rightarrow> state \<Rightarrow> state" where
  "mergeLoop e s =
     (if length (minTimeHeap s) > 0 then mergeLoop e (outerBody e s) else s)"
  by pat_completeness auto
termination
  by (relation "measure (\<lambda>(e, s). run_size s)") (auto intro: outerBody_size)

declare mergeLoop.simps [simp del]

section \<open>joincap\<close>

text \<open>
  The command line is parsed by \<open>flags.ParseArgs\<close>, a library; its result is the
  input here: the help flag, an error, or the flags. \<open>InFiles\<close> holds the
  positional arguments, the program name first.
\<close>

record cmdFlags =
  Verbose :: bool
  Version :: bool
  OutputFilePath :: string
  InFiles :: "string list"

datatype parse_result = ParseHelp | ParseFailed | Parsed cmdFlags

text \<open>
  What a call of \<open>joincap\<close> does: it returns \<open>nil\<close> or an error, or panics (the
  slice \<open>InFiles[1:]\<close> of an empty \<open>InFiles\<close>); the file header it wrote, if
  any; and the state it ends in.
\<close>

datatype outcome = Returned "error option" | Panicked

record run =
  ret :: outcome
  fileHeader :: "(32 word \<times> LinkType) option"
  final :: state

text \<open>
  \<open>joincap\<close>, called when the package-level \<open>previousTimestamp\<close> holds \<open>g\<close>
  (\<open>0\<close> in a fresh process). Heap, readers and writer are created by the call.
\<close>

definition joincap :: "env \<Rightarrow> parse_result \<Rightarrow> int64 \<Rightarrow> run" where
  "joincap e parsed g =
     (let s0 = \<lparr>previousTimestamp = g, files = [], minTimeHeap = [],
                 writes = [], trace = []\<rparr>
      in case parsed of
           ParseHelp \<Rightarrow> \<lparr>ret = Returned None, fileHeader = None, final = s0\<rparr>
         | ParseFailed \<Rightarrow>
             \<lparr>ret = Returned (Some CmdFlagsError), fileHeader = None, final = s0\<rparr>
         | Parsed cmdFlags \<Rightarrow>
             if Version cmdFlags
             then \<lparr>ret = Returned None, fileHeader = None, final = s0\<rparr>
             else (case InFiles cmdFlags of
                [] \<Rightarrow> \<lparr>ret = Panicked, fileHeader = None, final = s0\<rparr>
              | prog # inputFilePaths \<Rightarrow>
                  (case initHeapWithInputFiles e inputFilePaths
                          (s0\<lparr>trace := [EvBanner]\<rparr>) of
                     ((linkType, err), s1) \<Rightarrow>
                       if err \<noteq> None
                       then \<lparr>ret = Returned (Some CannotInitializeMerge),
                             fileHeader = None, final = s1\<rparr>
                       else if OutputFilePath cmdFlags \<noteq> ''-''
                               \<and> create_fails e (OutputFilePath cmdFlags)
                       then \<lparr>ret = Returned (Some CannotOpenForWriting),
                             fileHeader = None, final = s1\<rparr>
                       else \<lparr>ret = Returned None,
                             fileHeader = Some (maxSnaplen, linkType),
                             final = mergeLoop e
                               (s1\<lparr>trace := trace s1 @
                                    [EvWritingTo (OutputFilePath cmdFlags)]\<rparr>)\<rparr>)))"

text \<open>What reaches the log, and the records that reach the output file.\<close>

definition printed_log :: "cmdFlags \<Rightarrow> run \<Rightarrow> event list" where
  "printed_log cmdFlags r = (if Verbose cmdFlags then trace (final r) else [])"

definition emitted :: "state \<Rightarrow> Packet list" where
  "emitted s = map fst (writes s)"

definition output_records :: "state \<Rightarrow> (CaptureInfo \<times> 8 word list) list" where
  "output_records s = map (\<lambda>(p, ok). (CaptureInfo p, Data p)) (filter snd (writes s))"

section \<open>Notions used in the statements\<close>

text \<open>The flags of a plain call \<open>joincap paths...\<close>, writing to standard output.\<close>

definition flags_of :: "string list \<Rightarrow> parse_result" where
  "flags_of paths = Parsed \<lparr>Verbose = False, Version = False, OutputFilePath = ''-'',
                            InFiles = ''joincap'' # paths\<rparr>"

text \<open>A result that an initialization read returns: decoded, with a payload.\<close>

definition yields_packet :: "read_result \<Rightarrow> bool" where
  "yields_packet r = (case r of Rec data captureInfo \<Rightarrow> data \<noteq> [] | DecodeError \<Rightarrow> False)"

text \<open>An input that is skipped: it fails to open, to parse, or to yield a first record.\<close>

definition skipped :: "env \<Rightarrow> string \<Rightarrow> bool" where
  "skipped e p = (case fs e p of Pcap lt rs \<Rightarrow> \<not> list_ex yields_packet rs | _ \<Rightarrow> True)"

text \<open>An input that never gets a reader: it fails to open or to parse.\<close>

definition no_reader :: "env \<Rightarrow> string \<Rightarrow> bool" where
  "no_reader e p = (case fs e p of Pcap lt rs \<Rightarrow> False | _ \<Rightarrow> True)"

definition is_illegal_timestamp :: "event \<Rightarrow> bool" where
  "is_illegal_timestamp ev = (case ev of EvSkipIllegalTimestamp h c t \<Rightarrow> True | _ \<Rightarrow> False)"

text \<open>The link types of the inputs that open with a reader, in order.\<close>

fun opened_link_types :: "env \<Rightarrow> string list \<Rightarrow> LinkType list" where
  "opened_link_types e [] = []"
| "opened_link_types e (p # ps) =
     (case fs e p of Pcap lt rs \<Rightarrow> lt # opened_link_types e ps
                   | _ \<Rightarrow> opened_link_types e ps)"

text \<open>The update of the local \<open>linkType\<close> for one reader.\<close>

definition resolve :: "LinkType \<Rightarrow> LinkType \<Rightarrow> LinkType" where
  "resolve linkType readerLinkType =
     (if linkType = LinkTypeNull then readerLinkType
      else if linkType \<noteq> readerLinkType then LinkTypeEthernet else linkType)"

subsection \<open>The run as a sequence of states\<close>

text \<open>The states at the head of the outer loop, in order; the last one leaves it.\<close>

function mergeStates :: "env \<Rightarrow> state \<Rightarrow> state list" where
  "mergeStates e s =
     (if length (minTimeHeap s) > 0 then s # mergeStates e (outerBody e s) else [s])"
  by pat_completeness auto
termination
  by (relation "measure (\<lambda>(e, s). run_size s)") (auto intro: outerBody_size)

declare mergeStates.simps [simp del]

text \<open>The state in which \<open>joincap\<close> enters the outer loop.\<close>

definition loop_entry :: "env \<Rightarrow> cmdFlags \<Rightarrow> int64 \<Rightarrow> state" where
  "loop_entry e cmdFlags g =
     (case initHeapWithInputFiles e (tl (InFiles cmdFlags))
             \<lparr>previousTimestamp = g, files = [], minTimeHeap = [],
              writes = [], trace = [EvBanner]\<rparr> of
        (r, s1) \<Rightarrow> s1\<lparr>trace := trace s1 @ [EvWritingTo (OutputFilePath cmdFlags)]\<rparr>)"

text \<open>\<open>joincap\<close> gets as far as the loop: no early return.\<close>

definition merges :: "env \<Rightarrow> cmdFlags \<Rightarrow> bool" where
  "merges e cmdFlags =
     (\<not> Version cmdFlags \<and> InFiles cmdFlags \<noteq> []
      \<and> (OutputFilePath cmdFlags = ''-'' \<or> \<not> create_fails e (OutputFilePath cmdFlags)))"

subsection \<open>Sources and records\<close>

text \<open>The handles of the inputs that are open.\<close>

definition survivors :: "state \<Rightarrow> nat list" where
  "survivors s = filter (\<lambda>h. \<not> closed (files s ! h)) [0..<length (files s)]"

text \<open>
  One pending packet per open input, none for any other: the handles in the heap
  are pairwise different and are exactly those of the open inputs. A closed
  input has nothing left to read.
\<close>

definition one_per_source :: "state \<Rightarrow> bool" where
  "one_per_source s =
     (distinct (map Reader (minTimeHeap s))
      \<and> set (map Reader (minTimeHeap s)) = set (survivors s)
      \<and> list_all (\<lambda>f. closed f \<longrightarrow> unread f = []) (files s))"

text \<open>The same while the inner loop reads from input \<open>h0\<close>, which has no packet in the heap.\<close>

definition one_per_other_source :: "nat \<Rightarrow> state \<Rightarrow> bool" where
  "one_per_other_source h0 s =
     (distinct (map Reader (minTimeHeap s))
      \<and> h0 \<notin> set (map Reader (minTimeHeap s))
      \<and> insert h0 (set (map Reader (minTimeHeap s))) = set (survivors s)
      \<and> list_all (\<lambda>f. closed f \<longrightarrow> unread f = []) (files s))"

text \<open>The results that are decoded records, and the events that are anomaly rejections.\<close>

definition decoded :: "read_result \<Rightarrow> bool" where
  "decoded r = (case r of Rec d c \<Rightarrow> True | DecodeError \<Rightarrow> False)"

definition recs :: "read_result list \<Rightarrow> nat" where
  "recs rs = length (filter decoded rs)"

definition is_rejection :: "event \<Rightarrow> bool" where
  "is_rejection ev = (case ev of EvSkipIllegalTimestamp h c t \<Rightarrow> True
                              | EvSkipEmpty h \<Rightarrow> True | _ \<Rightarrow> False)"

definition rejected :: "event list \<Rightarrow> nat" where
  "rejected tr = length (filter is_rejection tr)"

text \<open>The records a path offers: those of the capture, none when it gets no reader.\<close>

definition offered :: "env \<Rightarrow> string \<Rightarrow> nat" where
  "offered e p = (case fs e p of Pcap lt rs \<Rightarrow> recs rs | _ \<Rightarrow> 0)"

text \<open>
  Every decoded record is in exactly one place: written, rejected, pending in
  the heap, or not read yet.
\<close>

definition accounted :: "state \<Rightarrow> nat" where
  "accounted s = length (writes s) + rejected (trace s) + length (minTimeHeap s)
                 + sum_list (map (\<lambda>f. recs (unread f)) (files s))"

text \<open>
  What a source still yields when it is read to its end with nothing else in the
  way: each accepted packet becomes the baseline for the reads after it.
\<close>

function drain :: "int64 \<Rightarrow> nat \<Rightarrow> read_result list \<Rightarrow> Packet list" where
  "drain prev h rs =
     (case readNext prev False h rs of
        ((None, f), ev) \<Rightarrow> []
      | ((Some q, f), ev) \<Rightarrow> q # drain (Timestamp q) h (unread f))"
  by pat_completeness auto
termination
  by (relation "measure (\<lambda>(prev, h, rs). length rs)") (auto dest: readNext_shorter [OF sym])

declare drain.simps [simp del]

text \<open>The decoded records of a source, in order, as the writer would get them.\<close>

fun records :: "read_result list \<Rightarrow> (CaptureInfo \<times> 8 word list) list" where
  "records [] = []"
| "records (Rec d c # rs) = (c, d) # records rs"
| "records (DecodeError # rs) = records rs"

text \<open>What \<open>write\<close> hands to \<open>WritePacket\<close> for a packet.\<close>

definition content :: "Packet \<Rightarrow> CaptureInfo \<times> 8 word list" where
  "content p = (CaptureInfo p, Data p)"

text \<open>The records a path offers, as a multiset.\<close>

definition offered_records :: "env \<Rightarrow> string \<Rightarrow> (CaptureInfo \<times> 8 word list) multiset" where
  "offered_records e p = (case fs e p of Pcap lt rs \<Rightarrow> mset (records rs) | _ \<Rightarrow> {#})"

text \<open>
  The records the run holds: written, pending in the heap, or not read yet.
\<close>

definition held :: "state \<Rightarrow> (CaptureInfo \<times> 8 word list) multiset" where
  "held s = mset (map content (emitted s)) + mset (map content (minTimeHeap s))
            + sum_list (map (\<lambda>f. mset (records (unread f))) (files s))"

subsection \<open>The heap property\<close>

text \<open>
  The key of a packet is its time stamp as a signed number. A slice is a heap up
  to \<open>n\<close> when no slot below \<open>n\<close> has a smaller key than its parent
  \<open>(j - 1) div 2\<close>. The two weaker properties hold during \<open>down\<close> and \<open>up\<close>:
  all is in order except between slot \<open>i\<close> and its children (its parent),
  and the parent of \<open>i\<close> is not above the children of \<open>i\<close>.
\<close>

definition key :: "Packet \<Rightarrow> int" where
  "key p = sint (Timestamp p)"

definition is_heap_upto :: "Packet list \<Rightarrow> nat \<Rightarrow> bool" where
  "is_heap_upto h n = (\<forall>j<n. 0 < j \<longrightarrow> key (h ! ((j - 1) div 2)) \<le> key (h ! j))"

definition is_heap :: "Packet list \<Rightarrow> bool" where
  "is_heap h = is_heap_upto h (length h)"

definition heap_but_down :: "Packet list \<Rightarrow> nat \<Rightarrow> nat \<Rightarrow> bool" where
  "heap_but_down h i n =
     ((\<forall>j<n. 0 < j \<longrightarrow> (j - 1) div 2 \<noteq> i \<longrightarrow> key (h ! ((j - 1) div 2)) \<le> key (h ! j))
      \<and> (0 < i \<longrightarrow> (\<forall>j<n. 0 < j \<longrightarrow> (j - 1) div 2 = i
                       \<longrightarrow> key (h ! ((i - 1) div 2)) \<le> key (h ! j))))"

definition heap_but_up :: "Packet list \<Rightarrow> nat \<Rightarrow> bool" where
  "heap_but_up h i =
     ((\<forall>j<length h. 0 < j \<longrightarrow> j \<noteq> i \<longrightarrow> key (h ! ((j - 1) div 2)) \<le> key (h ! j))
      \<and> (0 < i \<longrightarrow> (\<forall>j<length h. 0 < j \<longrightarrow> (j - 1) div 2 = i
                       \<longrightarrow> key (h ! ((i - 1) div 2)) \<le> key (h ! j))))"

subsection \<open>Time order\<close>

text \<open>The time stamps of the decoded records of a source, in order, as signed numbers.\<close>

fun rec_keys :: "read_result list \<Rightarrow> int list" where
  "rec_keys [] = []"
| "rec_keys (Rec d c # rs) = sint (UnixNano c) # rec_keys rs"
| "rec_keys (DecodeError # rs) = rec_keys rs"

text \<open>A source is time-ordered when these never decrease.\<close>

definition time_ordered :: "read_result list \<Rightarrow> bool" where
  "time_ordered rs = sorted (rec_keys rs)"

definition time_ordered_input :: "env \<Rightarrow> string \<Rightarrow> bool" where
  "time_ordered_input e p = (case fs e p of Pcap lt rs \<Rightarrow> time_ordered rs | _ \<Rightarrow> True)"

text \<open>
  The state of a run over time-ordered sources, at the head of the outer loop:
  the heap is a heap; what is left of every source is time-ordered; a pending
  packet is not later than what is left of its source; the packets written so
  far are in order and none is later than a pending one; and the time stamp of
  a packet is that of its capture info.
\<close>

definition ordered_run :: "state \<Rightarrow> bool" where
  "ordered_run s =
     (is_heap (minTimeHeap s)
      \<and> (\<forall>f \<in> set (files s). time_ordered (unread f))
      \<and> (\<forall>p \<in> set (minTimeHeap s). Reader p < length (files s)
            \<and> (\<forall>k \<in> set (rec_keys (unread (files s ! Reader p))). key p \<le> k))
      \<and> sorted (map key (emitted s))
      \<and> (\<forall>q \<in> set (emitted s). \<forall>p \<in> set (minTimeHeap s). key q \<le> key p)
      \<and> (\<forall>p \<in> set (minTimeHeap s) \<union> set (emitted s).
            Timestamp p = UnixNano (CaptureInfo p)))"

text \<open>
  The same inside the inner loop, which reads from source \<open>h0\<close>: in addition no
  packet written so far is later than what is left of \<open>h0\<close>, and
  \<open>earliestHeapTime\<close> is not later than any pending packet.
\<close>

definition ordered_inner :: "nat \<Rightarrow> int64 \<Rightarrow> state \<Rightarrow> bool" where
  "ordered_inner h0 thr s =
     (ordered_run s \<and> h0 < length (files s)
      \<and> (\<forall>q \<in> set (emitted s). \<forall>k \<in> set (rec_keys (unread (files s ! h0))). key q \<le> k)
      \<and> (\<forall>p \<in> set (minTimeHeap s). sint thr \<le> key p))"

subsection \<open>Relations between runs\<close>

text \<open>Two states that differ at most in \<open>previousTimestamp\<close>.\<close>

definition same_but_previous :: "state \<Rightarrow> state \<Rightarrow> bool" where
  "same_but_previous s t =
     (files s = files t \<and> minTimeHeap s = minTimeHeap t \<and> writes s = writes t
      \<and> trace s = trace t)"

text \<open>
  Two states that differ at most in which calls of \<open>WritePacket\<close> failed, and in
  the log lines of those failures.
\<close>

definition same_but_failures :: "state \<Rightarrow> state \<Rightarrow> bool" where
  "same_but_failures s t =
     (previousTimestamp s = previousTimestamp t \<and> files s = files t
      \<and> minTimeHeap s = minTimeHeap t \<and> map fst (writes s) = map fst (writes t)
      \<and> filter (\<lambda>ev. ev \<noteq> EvWriteError) (trace s)
          = filter (\<lambda>ev. ev \<noteq> EvWriteError) (trace t))"

subsection \<open>Concrete inputs\<close>

definition stale_ci :: CaptureInfo where
  "stale_ci = \<lparr>UnixNano = 50, CaptureLength = 1, Length = 1\<rparr>"

definition fresh_ci :: CaptureInfo where
  "fresh_ci = \<lparr>UnixNano = 7200000000000, CaptureLength = 1, Length = 1\<rparr>"

definition empty_ci :: CaptureInfo where
  "empty_ci = \<lparr>UnixNano = 5, CaptureLength = 0, Length = 0\<rparr>"

definition a_ci :: CaptureInfo where
  "a_ci = \<lparr>UnixNano = 10, CaptureLength = 1, Length = 1\<rparr>"

text \<open>Two captures: a BSD loopback one (link type 0) and a raw IP one (link type 101).\<close>

definition null_then_raw :: env where
  "null_then_raw = \<lparr>fs = (\<lambda>p. if p = ''lo.pcap'' then Pcap 0 [Rec [1] a_ci]
                                else if p = ''raw.pcap'' then Pcap 101 [Rec [2] a_ci]
                                else OpenError),
                     create_fails = (\<lambda>p. False), write_fails = (\<lambda>n. False)\<rparr>"

text \<open>Every path is an Ethernet capture with a file header and no record.\<close>

definition header_only :: env where
  "header_only = \<lparr>fs = (\<lambda>p. Pcap LinkTypeEthernet []),
                   create_fails = (\<lambda>p. False), write_fails = (\<lambda>n. False)\<rparr>"

text \<open>One capture of two records, and the same with a sink whose writes all fail.\<close>

definition two_records :: env where
  "two_records = \<lparr>fs = (\<lambda>p. Pcap LinkTypeEthernet [Rec [1] a_ci, Rec [2] fresh_ci]),
                   create_fails = (\<lambda>p. False), write_fails = (\<lambda>n. False)\<rparr>"

definition failing_sink :: env where
  "failing_sink = \<lparr>fs = (\<lambda>p. Pcap LinkTypeEthernet [Rec [1] a_ci, Rec [2] fresh_ci]),
                    create_fails = (\<lambda>p. False), write_fails = (\<lambda>n. True)\<rparr>"

definition a_packet :: Packet where
  "a_packet = \<lparr>Timestamp = 10, CaptureInfo = a_ci, Data = [1], Reader = 0\<rparr>"

definition start_state :: state where
  "start_state = \<lparr>previousTimestamp = 0, files = [], minTimeHeap = [],
                   writes = [], trace = []\<rparr>"

text \<open>The flags of \<open>joincap a.pcap a.pcap\<close>: one capture merged with itself.\<close>

definition twice :: cmdFlags where
  "twice = \<lparr>Verbose = False, Version = False, OutputFilePath = ''-'',
            InFiles = [''joincap'', ''a.pcap'', ''a.pcap'']\<rparr>"

text \<open>The flags of \<open>joincap a.pcap\<close>: a single source.\<close>

definition once :: cmdFlags where
  "once = \<lparr>Verbose = False, Version = False, OutputFilePath = ''-'',
           InFiles = [''joincap'', ''a.pcap'']\<rparr>"

text \<open>
  The scenario of the spec: source \<open>a.pcap\<close> has records at 10, 20 and 30, source
  \<open>b.pcap\<close> at 15 and 25.
\<close>

definition stamped :: "int64 \<Rightarrow> read_result" where
  "stamped t = Rec [1] \<lparr>UnixNano = t, CaptureLength = 1, Length = 1\<rparr>"

definition ab_env :: env where
  "ab_env = \<lparr>fs = (\<lambda>p. if p = ''a.pcap'' then Pcap LinkTypeEthernet (map stamped [10, 20, 30])
                        else if p = ''b.pcap'' then Pcap LinkTypeEthernet (map stamped [15, 25])
                        else OpenError),
              create_fails = (\<lambda>p. False), write_fails = (\<lambda>n. False)\<rparr>"

definition ab_flags :: cmdFlags where
  "ab_flags = \<lparr>Verbose = False, Version = False, OutputFilePath = ''-'',
               InFiles = [''joincap'', ''a.pcap'', ''b.pcap'']\<rparr>"

section \<open>The heap is a heap\<close>

lemma Less_key: "Less h i j = (key (h ! i) < key (h ! j))"
  by (simp add: Less_def key_def word_sless_alt)

lemma nth_Swap:
  "i < length h \<Longrightarrow> j < length h \<Longrightarrow>
   Swap h i j ! k = (if k = j then h ! i else if k = i then h ! j else h ! k)"
  by (simp add: Swap_def nth_list_update)

lemma down_is_heap:
  "n \<le> length h \<Longrightarrow> heap_but_down h i n \<Longrightarrow> is_heap_upto (down h i n) n"
proof (induction h i n rule: down.induct)
  case (1 h i n)
  note len = "1.prems"(1) and hb = "1.prems"(2)
  from hb have hb1: "\<And>c. c < n \<Longrightarrow> 0 < c \<Longrightarrow> (c - 1) div 2 \<noteq> i
                      \<Longrightarrow> key (h ! ((c - 1) div 2)) \<le> key (h ! c)"
    and hb2: "\<And>c. 0 < i \<Longrightarrow> c < n \<Longrightarrow> 0 < c \<Longrightarrow> (c - 1) div 2 = i
                      \<Longrightarrow> key (h ! ((i - 1) div 2)) \<le> key (h ! c)"
    by (auto simp: heap_but_down_def)
  show ?case
  proof (cases "n \<le> 2 * i + 1")
    case True
    have d: "down h i n = h" using True by (subst down.simps) simp
    have "is_heap_upto h n" unfolding is_heap_upto_def
    proof (intro allI impI)
      fix c assume c: "c < n" "0 < c"
      then have "(c - 1) div 2 \<noteq> i" using True by arith
      with c show "key (h ! ((c - 1) div 2)) \<le> key (h ! c)" by (rule hb1)
    qed
    with d show ?thesis by simp
  next
    case nb: False
    define j where "j = (if 2 * i + 1 + 1 < n \<and> Less h (2 * i + 1 + 1) (2 * i + 1)
                         then 2 * i + 1 + 1 else 2 * i + 1)"
    have jn: "j < n" and ji: "(j - 1) div 2 = i" and ij: "i < j" and j0: "0 < j"
      using nb by (auto simp: j_def)
    have jmin: "key (h ! j) \<le> key (h ! c)" if "c < n" "0 < c" "(c - 1) div 2 = i" for c
    proof -
      from that have "c = 2 * i + 1 \<or> c = 2 * i + 1 + 1" by arith
      then show ?thesis using that(1) by (auto simp: j_def Less_key)
    qed
    have down_eq: "down h i n = (if \<not> Less h j i then h else down (Swap h i j) j n)"
      unfolding j_def by (subst down.simps) (simp only: Let_def nb if_False)
    show ?thesis
    proof (cases "Less h j i")
      case False
      have d: "down h i n = h" using False by (simp add: down_eq)
      have "is_heap_upto h n" unfolding is_heap_upto_def
      proof (intro allI impI)
        fix c assume c: "c < n" "0 < c"
        show "key (h ! ((c - 1) div 2)) \<le> key (h ! c)"
        proof (cases "(c - 1) div 2 = i")
          case True
          with jmin [OF c True] False show ?thesis by (simp add: Less_key)
        next
          case False
          with c show ?thesis by (intro hb1)
        qed
      qed
      with d show ?thesis by simp
    next
      case True
      define h' where "h' = Swap h i j"
      have d: "down h i n = down h' j n"
        using True by (simp add: down_eq h'_def)
      have il: "i < length h" and jl: "j < length h" using ij jn len by auto
      note sw = nth_Swap [OF il jl, folded h'_def]
      have lt: "key (h ! j) < key (h ! i)" using True by (simp add: Less_key)
      have hb': "heap_but_down h' j n" unfolding heap_but_down_def
      proof (intro conjI allI impI)
        fix c assume c: "c < n" "0 < c" "(c - 1) div 2 \<noteq> j"
        show "key (h' ! ((c - 1) div 2)) \<le> key (h' ! c)"
        proof (cases "c = j")
          case True
          with ji ij lt show ?thesis by (simp add: sw)
        next
          case cj: False
          show ?thesis
          proof (cases "(c - 1) div 2 = i")
            case True
            then have "c \<noteq> i" using c(2) by arith
            with jmin [OF c(1,2) True] cj True ij show ?thesis by (simp add: sw)
          next
            case pi: False
            show ?thesis
            proof (cases "c = i")
              case True
              then have i0: "0 < i" using c(2) by simp
              have g: "(i - 1) div 2 \<noteq> i" "(i - 1) div 2 \<noteq> j" using i0 ij by arith+
              from hb2 [OF i0 jn j0 ji] True g ij show ?thesis by (simp add: sw)
            next
              case False
              with hb1 [OF c(1,2) pi] cj pi c(3) show ?thesis by (simp add: sw)
            qed
          qed
        qed
      next
        fix c assume c: "0 < j" "c < n" "0 < c" "(c - 1) div 2 = j"
        then have cne: "c \<noteq> j" "c \<noteq> i" using ij by arith+
        have "(c - 1) div 2 \<noteq> i" using c(4) ij by simp
        from hb1 [OF c(2,3) this] c(4) cne ji ij show "key (h' ! ((j - 1) div 2)) \<le> key (h' ! c)"
          by (simp add: sw)
      qed
      have "is_heap_upto (down (Swap h i j) j n) n"
        using "1.IH" [OF refl nb j_def] True len hb'
        by (simp add: h'_def)
      with d show ?thesis by (simp add: h'_def)
    qed
  qed
qed

lemma up_is_heap:
  "j < length h \<Longrightarrow> heap_but_up h j \<Longrightarrow> is_heap (up h j)"
proof (induction h j rule: up.induct)
  case (1 h j)
  note jl = "1.prems"(1) and hb = "1.prems"(2)
  define i where "i = (j - 1) div 2"
  from hb have hb1: "\<And>c. c < length h \<Longrightarrow> 0 < c \<Longrightarrow> c \<noteq> j
                      \<Longrightarrow> key (h ! ((c - 1) div 2)) \<le> key (h ! c)"
    and hb2: "\<And>c. 0 < j \<Longrightarrow> c < length h \<Longrightarrow> 0 < c \<Longrightarrow> (c - 1) div 2 = j
                      \<Longrightarrow> key (h ! ((j - 1) div 2)) \<le> key (h ! c)"
    by (auto simp: heap_but_up_def)
  have up_eq: "up h j = (if i = j \<or> \<not> Less h j i then h else up (Swap h i j) i)"
    unfolding i_def by (subst up.simps) (simp only: Let_def)
  show ?case
  proof (cases "i = j \<or> \<not> Less h j i")
    case True
    have "is_heap h" unfolding is_heap_def is_heap_upto_def
    proof (intro allI impI)
      fix c assume c: "c < length h" "0 < c"
      show "key (h ! ((c - 1) div 2)) \<le> key (h ! c)"
      proof (cases "c = j")
        case cj: True
        with c have "i \<noteq> j" unfolding i_def by arith
        with True have "\<not> Less h j i" by simp
        then show ?thesis using cj by (simp add: Less_key i_def)
      next
        case False
        with c show ?thesis by (intro hb1)
      qed
    qed
    with True show ?thesis by (simp add: up_eq)
  next
    case False
    then have ij: "i \<noteq> j" and less: "Less h j i" by auto
    have j0: "0 < j" using ij unfolding i_def by (cases j) auto
    have ilt: "i < j" using j0 unfolding i_def by arith
    have il: "i < length h" using ilt jl by simp
    define h' where "h' = Swap h i j"
    note sw = nth_Swap [OF il jl, folded h'_def]
    have lt: "key (h ! j) < key (h ! i)" using less by (simp add: Less_key)
    have ji: "(j - 1) div 2 = i" by (simp add: i_def)
    have hb': "heap_but_up h' i" unfolding heap_but_up_def
    proof (intro conjI allI impI)
      fix c assume c: "c < length h'" "0 < c" "c \<noteq> i"
      then have cl: "c < length h" by (simp add: h'_def)
      show "key (h' ! ((c - 1) div 2)) \<le> key (h' ! c)"
      proof (cases "c = j")
        case True
        with lt ilt ji show ?thesis by (simp add: sw)
      next
        case cj: False
        show ?thesis
        proof (cases "(c - 1) div 2 = j")
          case True
          from hb2 [OF j0 cl c(2) True] True cj c(3) ilt ji show ?thesis
            by (simp add: sw)
        next
          case pj: False
          show ?thesis
          proof (cases "(c - 1) div 2 = i")
            case True
            from hb1 [OF cl c(2) cj] True lt cj c(3) ilt show ?thesis by (simp add: sw)
          next
            case False
            with hb1 [OF cl c(2) cj] pj cj c(3) show ?thesis by (simp add: sw)
          qed
        qed
      qed
    next
      fix c assume c: "0 < i" "c < length h'" "0 < c" "(c - 1) div 2 = i"
      then have cl: "c < length h" by (simp add: h'_def)
      have g: "(i - 1) div 2 \<noteq> i" "(i - 1) div 2 \<noteq> j" using c(1) ilt by arith+
      have ci: "c \<noteq> i" using c(3,4) by arith
      have gi: "key (h ! ((i - 1) div 2)) \<le> key (h ! i)"
        using hb1 [OF il c(1)] ij by simp
      show "key (h' ! ((i - 1) div 2)) \<le> key (h' ! c)"
      proof (cases "c = j")
        case True
        with gi g show ?thesis by (simp add: sw)
      next
        case False
        from hb1 [OF cl c(3) False] c(4) gi False ci g show ?thesis by (simp add: sw)
      qed
    qed
    have "is_heap (up (Swap h i j) i)"
      using "1.IH" [OF i_def] False il hb' by (simp add: h'_def)
    with False show ?thesis by (simp add: up_eq)
  qed
qed

lemma is_heap_Push: "is_heap h \<Longrightarrow> is_heap (heap_Push h x)"
proof -
  assume h: "is_heap h"
  have "heap_but_up (h @ [x]) (length h)" unfolding heap_but_up_def
  proof (intro conjI allI impI)
    fix c assume c: "c < length (h @ [x])" "0 < c" "c \<noteq> length h"
    then have cl: "c < length h" by simp
    then have "(c - 1) div 2 < length h" by arith
    with h cl c(2) show "key ((h @ [x]) ! ((c - 1) div 2)) \<le> key ((h @ [x]) ! c)"
      by (simp add: is_heap_def is_heap_upto_def nth_append)
  next
    fix c assume c: "0 < length h" "c < length (h @ [x])" "0 < c" "(c - 1) div 2 = length h"
    then have False by simp
    then show "key ((h @ [x]) ! ((length h - 1) div 2)) \<le> key ((h @ [x]) ! c)" ..
  qed
  then show ?thesis by (simp add: heap_Push_def up_is_heap)
qed

lemma is_heap_root:
  "is_heap h \<Longrightarrow> j < length h \<Longrightarrow> key (h ! 0) \<le> key (h ! j)"
proof (induction j rule: less_induct)
  case (less j)
  show ?case
  proof (cases "j = 0")
    case True
    then show ?thesis by simp
  next
    case False
    then have pj: "(j - 1) div 2 < j" by arith
    with less.prems have "key (h ! 0) \<le> key (h ! ((j - 1) div 2))"
      by (intro less.IH) auto
    also have "\<dots> \<le> key (h ! j)"
      using less.prems False by (simp add: is_heap_def is_heap_upto_def)
    finally show ?thesis .
  qed
qed

lemma heap_Pop_is_heap:
  assumes "is_heap h" and "h \<noteq> []" and "heap_Pop h = (x, h')"
  shows "is_heap h'" and "x = h ! 0" and "\<forall>p \<in> set h. key x \<le> key p"
proof -
  define n where "n = length h - 1"
  define h1 where "h1 = Swap h 0 n"
  define g where "g = down h1 0 n"
  have n: "n < length h" and l0: "0 < length h" using assms(2) by (simp_all add: n_def)
  have lg: "length g = length h" by (simp add: g_def h1_def)
  have x: "x = last g" and h': "h' = butlast g"
    using assms(3) by (simp_all add: heap_Pop_def Let_def n_def g_def h1_def)
  note sw = nth_Swap [OF l0 n, folded h1_def]
  have "heap_but_down h1 0 n" unfolding heap_but_down_def
  proof (intro conjI allI impI)
    fix c assume c: "c < n" "0 < c" "(c - 1) div 2 \<noteq> 0"
    then have "(c - 1) div 2 < n" by arith
    with assms(1) c n show "key (h1 ! ((c - 1) div 2)) \<le> key (h1 ! c)"
      by (simp add: sw is_heap_def is_heap_upto_def)
  qed simp
  then have up: "is_heap_upto g n" unfolding g_def
    using n by (intro down_is_heap) (simp add: h1_def)
  have lh': "length h' = n" by (simp add: h' lg n_def)
  show "is_heap h'" unfolding is_heap_def is_heap_upto_def lh'
  proof (intro allI impI)
    fix c assume c: "c < n" "0 < c"
    then have "(c - 1) div 2 < n" by arith
    with up c show "key (h' ! ((c - 1) div 2)) \<le> key (h' ! c)"
      by (simp add: is_heap_upto_def h' nth_butlast lg n_def)
  qed
  have "g \<noteq> []" using lg l0 by auto
  then have "last g = g ! n" using lg by (simp add: last_conv_nth n_def)
  also have "\<dots> = h1 ! n" by (simp add: g_def nth_down_beyond)
  also have "\<dots> = h ! 0" by (simp add: sw)
  finally show x0: "x = h ! 0" by (simp add: x)
  show "\<forall>p \<in> set h. key x \<le> key p"
    using is_heap_root [OF assms(1)] by (auto simp: x0 in_set_conv_nth)
qed

section \<open>Reading and initialization\<close>

lemma sint_oneHour: "sint oneHour = 3600000000000"
  by (simp add: oneHour_def)

lemma stale_no_wrap:
  assumes "sint ts + sint oneHour < sint prev"
  shows "ts + oneHour <s prev"
proof -
  have lo: "- (2 ^ 63) \<le> sint ts" using sint_ge [of ts] by simp
  have hi: "sint prev < 2 ^ 63" using sint_lt [of prev] by simp
  have "sint (ts + oneHour) = signed_take_bit 63 (sint ts + sint oneHour)"
    by (simp add: sint_word_ariths)
  also have "\<dots> = sint ts + sint oneHour"
    using lo hi assms by (intro signed_take_bit_int_eq_self) (simp_all add: sint_oneHour)
  finally show ?thesis using assms by (simp add: word_sless_alt)
qed

lemma readNext_closed_iff:
  "readNext prev isInit h rs = ((r, f), ev) \<Longrightarrow> closed f = (r = None)"
proof (induction prev isInit h rs arbitrary: ev rule: readNext.induct)
  case (1 prev isInit h)
  then show ?case by auto
next
  case (2 prev isInit h rs)
  then show ?case by (auto split: prod.splits)
next
  case (3 prev isInit h data captureInfo rs)
  then show ?case by (auto simp: Let_def split: prod.splits if_splits)
qed

lemma readNext_init_events:
  "\<forall>ev \<in> set (snd (readNext prev True h rs)). \<not> is_illegal_timestamp ev"
proof (induction prev "True" h rs rule: readNext.induct)
  case (1 prev h)
  then show ?case by (simp add: is_illegal_timestamp_def)
next
  case (2 prev h rs)
  then show ?case by (auto simp: is_illegal_timestamp_def split: prod.splits)
next
  case (3 prev h data captureInfo rs)
  then show ?case by (auto simp: Let_def is_illegal_timestamp_def split: prod.splits)
qed

lemma initLoop_link_type:
  "fst (initLoop e ps (lt, s)) = foldl resolve lt (opened_link_types e ps)"
proof (induction ps arbitrary: lt s)
  case Nil
  then show ?case by simp
next
  case (Cons p ps)
  obtain lt' s' where one: "initOne e p (lt, s) = (lt', s')" by (metis prod.exhaust)
  have "lt' = (case fs e p of Pcap rlt rs \<Rightarrow> resolve lt rlt | _ \<Rightarrow> lt)"
    using one by (auto simp: initOne_def resolve_def Let_def
                       split: input_file.splits prod.splits option.splits)
  then show ?case using Cons.IH [of lt' s'] one
    by (auto split: input_file.splits)
qed

lemma foldl_resolve_Ethernet:
  "foldl resolve LinkTypeEthernet ts = LinkTypeEthernet"
  by (induction ts) (auto simp: resolve_def LinkTypeEthernet_def LinkTypeNull_def)

lemma foldl_resolve_seeded:
  "t \<noteq> LinkTypeNull \<Longrightarrow>
   foldl resolve t ts = (if \<forall>x \<in> set ts. x = t then t else LinkTypeEthernet)"
proof (induction ts)
  case Nil
  then show ?case by simp
next
  case (Cons x ts)
  have "resolve t x = (if x = t then t else LinkTypeEthernet)"
    using Cons.prems by (auto simp: resolve_def)
  then show ?case using Cons by (auto simp: foldl_resolve_Ethernet)
qed

lemma link_type_seeded:
  assumes "opened_link_types e ps = t # ts" and "t \<noteq> LinkTypeNull"
  shows "fst (fst (initHeapWithInputFiles e ps s)) =
           (if \<forall>x \<in> set ts. x = t then t else LinkTypeEthernet)"
proof -
  have "fst (initLoop e ps (LinkTypeNull, s)) = foldl resolve t ts"
    by (simp add: initLoop_link_type assms(1) resolve_def)
  moreover obtain lt s' where "initLoop e ps (LinkTypeNull, s) = (lt, s')"
    by (metis prod.exhaust)
  ultimately show ?thesis
    using foldl_resolve_seeded [OF assms(2), of ts]
    by (simp add: initHeapWithInputFiles_def)
qed

lemma readNext_init_None:
  "\<not> list_ex yields_packet rs \<Longrightarrow> fst (fst (readNext prev True h rs)) = None"
proof (induction prev "True" h rs rule: readNext.induct)
  case (1 prev h)
  then show ?case by simp
next
  case (2 prev h rs)
  then show ?case by (auto simp: yields_packet_def split: prod.splits)
next
  case (3 prev h data captureInfo rs)
  then show ?case by (auto simp: yields_packet_def Let_def split: prod.splits)
qed

lemma initOne_skipped:
  assumes "skipped e p"
  shows "minTimeHeap (snd (initOne e p (lt, s))) = minTimeHeap s"
    and "writes (snd (initOne e p (lt, s))) = writes s"
proof -
  show "minTimeHeap (snd (initOne e p (lt, s))) = minTimeHeap s"
  proof (cases "fs e p")
    case (Pcap rlt rs)
    with assms have "fst (fst (readNext (previousTimestamp s) True (length (files s)) rs)) = None"
      by (simp add: skipped_def readNext_init_None)
    then show ?thesis using Pcap
      by (auto simp: initOne_def Let_def split: prod.splits option.splits)
  qed (simp_all add: initOne_def)
  show "writes (snd (initOne e p (lt, s))) = writes s"
    by (auto simp: initOne_def Let_def split: input_file.splits prod.splits option.splits)
qed

lemma initLoop_skipped:
  "\<forall>p \<in> set ps. skipped e p \<Longrightarrow>
   minTimeHeap (snd (initLoop e ps (lt, s))) = minTimeHeap s
   \<and> writes (snd (initLoop e ps (lt, s))) = writes s"
proof (induction ps arbitrary: lt s)
  case Nil
  then show ?case by simp
next
  case (Cons p ps)
  obtain lt' s' where one: "initOne e p (lt, s) = (lt', s')" by (metis prod.exhaust)
  from Cons.prems have "skipped e p" by simp
  from initOne_skipped [OF this, of lt s] one
  have "minTimeHeap s' = minTimeHeap s" "writes s' = writes s" by simp_all
  then show ?case using Cons.IH [of lt' s'] Cons.prems one by simp
qed

lemma initOne_no_reader:
  "no_reader e p \<Longrightarrow> fst (initOne e p (lt, s)) = lt"
  by (auto simp: initOne_def no_reader_def split: input_file.splits)

lemma initLoop_no_reader:
  "\<forall>p \<in> set ps. no_reader e p \<Longrightarrow> fst (initLoop e ps (lt, s)) = lt"
proof (induction ps arbitrary: lt s)
  case Nil
  then show ?case by simp
next
  case (Cons p ps)
  obtain lt' s' where one: "initOne e p (lt, s) = (lt', s')" by (metis prod.exhaust)
  from Cons.prems have "no_reader e p" by simp
  from initOne_no_reader [OF this, of lt s] one have "lt' = lt" by simp
  then show ?case using Cons.IH [of lt' s'] Cons.prems one by simp
qed

lemma mergeLoop_empty: "minTimeHeap s = [] \<Longrightarrow> mergeLoop e s = s"
  by (subst mergeLoop.simps) simp

lemma readNext_init_previous:
  "readNext prev True h rs = readNext prev' True h rs"
  by (induction prev "True" h rs rule: readNext.induct) (simp_all add: Let_def)

lemma initOne_previous:
  assumes "same_but_previous s t"
  shows "fst (initOne e p (lt, s)) = fst (initOne e p (lt, t))"
    and "same_but_previous (snd (initOne e p (lt, s))) (snd (initOne e p (lt, t)))"
  using assms readNext_init_previous [of "previousTimestamp s" _ _ "previousTimestamp t"]
  by (auto simp: initOne_def same_but_previous_def Let_def
           split: input_file.splits prod.splits option.splits)

lemma initLoop_previous:
  "same_but_previous s t \<Longrightarrow>
   fst (initLoop e ps (lt, s)) = fst (initLoop e ps (lt, t))
   \<and> same_but_previous (snd (initLoop e ps (lt, s))) (snd (initLoop e ps (lt, t)))"
proof (induction ps arbitrary: lt s t)
  case Nil
  then show ?case by simp
next
  case (Cons p ps)
  obtain l1 s1 where a: "initOne e p (lt, s) = (l1, s1)" by (metis prod.exhaust)
  obtain l2 t1 where b: "initOne e p (lt, t) = (l2, t1)" by (metis prod.exhaust)
  from initOne_previous [OF Cons.prems, of e p lt] a b
  have "l1 = l2" "same_but_previous s1 t1" by simp_all
  with Cons.IH [of s1 t1 l1] a b show ?case by simp
qed

lemma outerBody_previous:
  "same_but_previous s t \<Longrightarrow> outerBody e s = outerBody e t"
proof -
  assume st: "same_but_previous s t"
  have "write_packet e x (s\<lparr>minTimeHeap := h\<rparr>) = write_packet e x (t\<lparr>minTimeHeap := h\<rparr>)" for x h
    using st by (simp add: write_packet_def same_but_previous_def Let_def)
  then show ?thesis using st
    by (simp add: outerBody_def same_but_previous_def split: prod.splits)
qed

lemma mergeLoop_previous:
  assumes "same_but_previous s t"
  shows "same_but_previous (mergeLoop e s) (mergeLoop e t)"
    and "minTimeHeap s \<noteq> [] \<Longrightarrow> mergeLoop e s = mergeLoop e t"
    and "minTimeHeap s = [] \<Longrightarrow> mergeLoop e s = s \<and> mergeLoop e t = t"
proof -
  have h: "minTimeHeap t = minTimeHeap s" using assms by (simp add: same_but_previous_def)
  show ne: "mergeLoop e s = mergeLoop e t" if "minTimeHeap s \<noteq> []"
    using that h outerBody_previous [OF assms, of e]
    by (subst mergeLoop.simps, subst (2) mergeLoop.simps) simp
  show em: "mergeLoop e s = s \<and> mergeLoop e t = t" if "minTimeHeap s = []"
    using that h by (subst mergeLoop.simps, subst (2) mergeLoop.simps) simp
  show "same_but_previous (mergeLoop e s) (mergeLoop e t)"
  proof (cases "minTimeHeap s = []")
    case True
    with em assms show ?thesis by simp
  next
    case False
    with ne show ?thesis by (simp add: same_but_previous_def)
  qed
qed

lemma joincap_previous:
  "ret (joincap e parsed g) = ret (joincap e parsed g')
   \<and> fileHeader (joincap e parsed g) = fileHeader (joincap e parsed g')
   \<and> same_but_previous (final (joincap e parsed g)) (final (joincap e parsed g'))"
proof (cases parsed)
  case (Parsed f)
  show ?thesis
  proof (cases "InFiles f")
    case Nil
    with Parsed show ?thesis by (simp add: joincap_def Let_def same_but_previous_def)
  next
    case (Cons prog ps)
    define s0 where "s0 = (\<lambda>g. \<lparr>previousTimestamp = g, files = [], minTimeHeap = [],
                 writes = [], trace = [EvBanner]\<rparr>)"
    have s0: "same_but_previous (s0 g) (s0 g')" by (simp add: s0_def same_but_previous_def)
    obtain l1 s1 where a: "initLoop e ps (LinkTypeNull, s0 g) = (l1, s1)" by (metis prod.exhaust)
    obtain l2 t1 where b: "initLoop e ps (LinkTypeNull, s0 g') = (l2, t1)" by (metis prod.exhaust)
    from initLoop_previous [OF s0, of e ps LinkTypeNull] a b
    have l: "l2 = l1" and st: "same_but_previous s1 t1" by simp_all
    have h: "minTimeHeap t1 = minTimeHeap s1" using st by (simp add: same_but_previous_def)
    define s2 where "s2 = s1\<lparr>trace := trace s1 @ [EvMerging (length (minTimeHeap s1))]\<rparr>"
    define t2 where "t2 = t1\<lparr>trace := trace t1 @ [EvMerging (length (minTimeHeap s1))]\<rparr>"
    define s3 where "s3 = s2\<lparr>trace := trace s2 @ [EvWritingTo (OutputFilePath f)]\<rparr>"
    define t3 where "t3 = t2\<lparr>trace := trace t2 @ [EvWritingTo (OutputFilePath f)]\<rparr>"
    have st2: "same_but_previous s2 t2"
      using st by (simp add: same_but_previous_def s2_def t2_def)
    then have st3: "same_but_previous s3 t3"
      by (simp add: same_but_previous_def s3_def t3_def)
    have ig: "initHeapWithInputFiles e ps (s0 g) = ((l1, None), s2)"
      using a by (simp add: initHeapWithInputFiles_def s2_def)
    have ig': "initHeapWithInputFiles e ps (s0 g') = ((l1, None), t2)"
      using b l h by (simp add: initHeapWithInputFiles_def t2_def)
    show ?thesis
    proof (cases "Version f")
      case True
      with Parsed show ?thesis by (simp add: joincap_def Let_def same_but_previous_def)
    next
      case nv: False
      show ?thesis
      proof (cases "OutputFilePath f \<noteq> ''-'' \<and> create_fails e (OutputFilePath f)")
        case True
        with Parsed Cons nv ig ig' st2 show ?thesis
          unfolding s0_def by (simp add: joincap_def Let_def)
      next
        case False
        with Parsed Cons nv ig ig' mergeLoop_previous(1) [OF st3, of e] show ?thesis
          unfolding s0_def s3_def t3_def by (auto simp: joincap_def Let_def)
      qed
    qed
  qed
qed (simp_all add: joincap_def Let_def same_but_previous_def)

lemma write_failures:
  "same_but_failures s t \<Longrightarrow>
   same_but_failures (write_packet e p s) (write_packet e' p t)"
  by (simp add: same_but_failures_def write_packet_def Let_def)

lemma readNext_events_no_write_error:
  "EvWriteError \<notin> set (snd (readNext prev isInit h rs))"
  by (induction prev isInit h rs rule: readNext.induct)
     (auto simp: Let_def split: prod.splits)

lemma readNext_at_failures:
  assumes "same_but_failures s t"
  shows "fst (readNext_at h isInit s) = fst (readNext_at h isInit t)"
    and "same_but_failures (snd (readNext_at h isInit s)) (snd (readNext_at h isInit t))"
proof -
  have f: "filter (\<lambda>ev. ev \<noteq> EvWriteError) (snd (readNext prev isInit h rs))
             = snd (readNext prev isInit h rs)" for prev rs
    using readNext_events_no_write_error [of prev isInit h rs] by (auto simp: filter_id_conv)
  show "fst (readNext_at h isInit s) = fst (readNext_at h isInit t)"
    using assms by (auto simp: readNext_at_def same_but_failures_def split: prod.splits)
  show "same_but_failures (snd (readNext_at h isInit s)) (snd (readNext_at h isInit t))"
    using assms f [of "previousTimestamp t" "unread (files t ! h)"]
    by (auto simp: readNext_at_def same_but_failures_def split: prod.splits)
qed

lemma innerLoop_failures:
  "same_but_failures s t \<Longrightarrow>
   same_but_failures (innerLoop e p thr s) (innerLoop e' p thr t)"
proof (induction e p thr s arbitrary: t rule: innerLoop.induct)
  case (1 e p thr s)
  obtain r s' where a: "readNext_at (Reader p) False s = (r, s')" by (metis prod.exhaust)
  obtain r' t' where b: "readNext_at (Reader p) False t = (r', t')" by (metis prod.exhaust)
  from readNext_at_failures [OF "1.prems", of "Reader p" False] a b
  have r: "r' = r" and st: "same_but_failures s' t'" by simp_all
  show ?case
  proof (cases r)
    case None
    with a b r st show ?thesis
      by (subst innerLoop.simps, subst (2) innerLoop.simps) simp
  next
    case (Some q)
    show ?thesis
    proof (cases "Timestamp q \<le>s thr")
      case True
      have "same_but_failures (innerLoop e p thr (write_packet e q s'))
              (innerLoop e' p thr (write_packet e' q t'))"
        using "1.IH" [OF a [symmetric, unfolded Some] refl True write_failures [OF st]] .
      with a b r Some True show ?thesis
        by (subst innerLoop.simps, subst (2) innerLoop.simps) simp
    next
      case False
      with a b r Some st show ?thesis
        by (subst innerLoop.simps, subst (2) innerLoop.simps)
           (simp add: same_but_failures_def)
    qed
  qed
qed

lemma outerBody_failures:
  "same_but_failures s t \<Longrightarrow> same_but_failures (outerBody e s) (outerBody e' t)"
proof -
  assume st: "same_but_failures s t"
  obtain x h where pop: "heap_Pop (minTimeHeap s) = (x, h)" by (metis prod.exhaust)
  have "same_but_failures (s\<lparr>minTimeHeap := h\<rparr>) (t\<lparr>minTimeHeap := h\<rparr>)"
    using st by (simp add: same_but_failures_def)
  from innerLoop_failures [OF write_failures [OF this]] pop st show ?thesis
    by (simp add: outerBody_def Let_def same_but_failures_def)
qed

lemma mergeLoop_failures:
  "same_but_failures s t \<Longrightarrow> same_but_failures (mergeLoop e s) (mergeLoop e' t)"
proof (induction e s arbitrary: t rule: mergeLoop.induct)
  case (1 e s)
  have h: "minTimeHeap t = minTimeHeap s" using "1.prems" by (simp add: same_but_failures_def)
  show ?case
  proof (cases "length (minTimeHeap s) > 0")
    case True
    from "1.IH" [OF True outerBody_failures [OF "1.prems"]] True h show ?thesis
      by (subst mergeLoop.simps, subst (2) mergeLoop.simps) simp
  next
    case False
    with h "1.prems" show ?thesis
      by (subst mergeLoop.simps, subst (2) mergeLoop.simps) simp
  qed
qed

lemma initLoop_env:
  "fs e' = fs e \<Longrightarrow> initLoop e' ps ls = initLoop e ps ls"
  by (induction ps arbitrary: ls) (simp_all add: initOne_def)

lemma joincap_failures:
  assumes "fs e' = fs e" and "create_fails e' = create_fails e"
  shows "ret (joincap e' parsed g) = ret (joincap e parsed g)
   \<and> fileHeader (joincap e' parsed g) = fileHeader (joincap e parsed g)
   \<and> same_but_failures (final (joincap e' parsed g)) (final (joincap e parsed g))"
proof (cases parsed)
  case (Parsed f)
  show ?thesis
  proof (cases "InFiles f")
    case Nil
    with Parsed show ?thesis by (simp add: joincap_def Let_def same_but_failures_def)
  next
    case (Cons prog ps)
    define s0 where "s0 = \<lparr>previousTimestamp = g, files = [], minTimeHeap = [],
                 writes = [], trace = [EvBanner]\<rparr>"
    obtain l1 s1 where a: "initLoop e ps (LinkTypeNull, s0) = (l1, s1)" by (metis prod.exhaust)
    have b: "initLoop e' ps (LinkTypeNull, s0) = (l1, s1)"
      using initLoop_env [OF assms(1)] a by simp
    define s2 where "s2 = s1\<lparr>trace := trace s1 @ [EvMerging (length (minTimeHeap s1))]\<rparr>"
    define s3 where "s3 = s2\<lparr>trace := trace s2 @ [EvWritingTo (OutputFilePath f)]\<rparr>"
    have refl2: "same_but_failures s2 s2" and refl3: "same_but_failures s3 s3"
      by (simp_all add: same_but_failures_def)
    have ig: "initHeapWithInputFiles e ps s0 = ((l1, None), s2)"
      using a by (simp add: initHeapWithInputFiles_def s2_def)
    have ig': "initHeapWithInputFiles e' ps s0 = ((l1, None), s2)"
      using b by (simp add: initHeapWithInputFiles_def s2_def)
    show ?thesis
    proof (cases "Version f")
      case True
      with Parsed show ?thesis by (simp add: joincap_def Let_def same_but_failures_def)
    next
      case nv: False
      show ?thesis
      proof (cases "OutputFilePath f \<noteq> ''-'' \<and> create_fails e (OutputFilePath f)")
        case True
        with Parsed Cons nv ig ig' refl2 assms(2) show ?thesis
          unfolding s0_def by (simp add: joincap_def Let_def)
      next
        case False
        with Parsed Cons nv ig ig' assms(2) mergeLoop_failures [OF refl3, of e' e] show ?thesis
          unfolding s0_def s3_def by (auto simp: joincap_def Let_def)
      qed
    qed
  qed
qed (simp_all add: joincap_def Let_def same_but_failures_def)

section \<open>Rules for the loops\<close>

lemma joincap_merges:
  "merges e f \<Longrightarrow> final (joincap e (Parsed f) g) = mergeLoop e (loop_entry e f g)"
  by (cases "InFiles f")
     (auto simp: merges_def joincap_def loop_entry_def Let_def initHeapWithInputFiles_def
           split: prod.splits)

lemma joincap_not_merges:
  "\<not> merges e f \<Longrightarrow> writes (final (joincap e (Parsed f) g)) = []"
proof (cases "InFiles f")
  case Nil
  then show ?thesis by (simp add: joincap_def Let_def)
next
  case (Cons prog ps)
  assume "\<not> merges e f"
  define s0 where "s0 = \<lparr>previousTimestamp = g, files = [], minTimeHeap = [],
                 writes = [], trace = [EvBanner]\<rparr>"
  have "writes (snd (initLoop e ps (lt, s))) = writes s" for lt s
  proof (induction ps arbitrary: lt s)
    case Nil
    then show ?case by simp
  next
    case (Cons p ps)
    obtain l1 s1 where a: "initOne e p (lt, s) = (l1, s1)" by (metis prod.exhaust)
    then have "writes s1 = writes s"
      by (auto simp: initOne_def Let_def split: input_file.splits prod.splits option.splits)
    with Cons [of l1 s1] a show ?case by simp
  qed
  from this [of LinkTypeNull s0] \<open>\<not> merges e f\<close> Cons show ?thesis
    by (auto simp: merges_def joincap_def Let_def initHeapWithInputFiles_def s0_def
             split: prod.splits)
qed

lemma mergeLoop_rule:
  assumes "I s" and "\<And>s. I s \<Longrightarrow> minTimeHeap s \<noteq> [] \<Longrightarrow> I (outerBody e s)"
  shows "I (mergeLoop e s)" and "\<forall>t \<in> set (mergeStates e s). I t"
proof -
  have "I (mergeLoop e s) \<and> (\<forall>t \<in> set (mergeStates e s). I t)" using assms(1)
  proof (induction "run_size s" arbitrary: s rule: less_induct)
    case less
    show ?case
    proof (cases "minTimeHeap s = []")
      case True
      with less.prems show ?thesis
        by (subst mergeLoop.simps, subst mergeStates.simps) simp
    next
      case False
      have "I (mergeLoop e (outerBody e s)) \<and> (\<forall>t \<in> set (mergeStates e (outerBody e s)). I t)"
        using False less.prems by (intro less.hyps outerBody_size assms(2))
      with False less.prems show ?thesis
        by (subst mergeLoop.simps, subst mergeStates.simps) simp
    qed
  qed
  then show "I (mergeLoop e s)" and "\<forall>t \<in> set (mergeStates e s). I t" by simp_all
qed

lemma mergeLoop_heap_empty: "minTimeHeap (mergeLoop e s) = []"
proof (induction "run_size s" arbitrary: s rule: less_induct)
  case less
  show ?case
  proof (cases "minTimeHeap s = []")
    case True
    then show ?thesis by (subst mergeLoop.simps) simp
  next
    case False
    with less.hyps [OF outerBody_size [OF False]] show ?thesis
      by (subst mergeLoop.simps) simp
  qed
qed

lemma mergeStates_last: "last (mergeStates e s) = mergeLoop e s"
proof (induction "run_size s" arbitrary: s rule: less_induct)
  case less
  show ?case
  proof (cases "minTimeHeap s = []")
    case True
    then show ?thesis by (subst mergeLoop.simps, subst mergeStates.simps) simp
  next
    case False
    have "mergeStates e (outerBody e s) \<noteq> []" by (subst mergeStates.simps) simp
    with less.hyps [OF outerBody_size [OF False]] False show ?thesis
      by (subst mergeLoop.simps, subst mergeStates.simps) simp
  qed
qed

text \<open>The inner loop: \<open>Q\<close> holds whenever a read starts, \<open>R\<close> when the loop is left.\<close>

lemma innerLoop_rule:
  assumes "Q s"
    and "\<And>s s'. Q s \<Longrightarrow> readNext_at (Reader p) False s = (None, s') \<Longrightarrow> R s'"
    and "\<And>s q s'. Q s \<Longrightarrow> readNext_at (Reader p) False s = (Some q, s')
           \<Longrightarrow> Timestamp q \<le>s thr \<Longrightarrow> Q (write_packet e q s')"
    and "\<And>s q s'. Q s \<Longrightarrow> readNext_at (Reader p) False s = (Some q, s')
           \<Longrightarrow> \<not> Timestamp q \<le>s thr
           \<Longrightarrow> R (s'\<lparr>minTimeHeap := heap_Push (minTimeHeap s') q\<rparr>)"
  shows "R (innerLoop e p thr s)"
  using assms(1)
proof (induction "length (unread (files s ! Reader p))" arbitrary: s rule: less_induct)
  case less
  obtain r s' where rd: "readNext_at (Reader p) False s = (r, s')" by (metis prod.exhaust)
  show ?case
  proof (cases r)
    case None
    with rd assms(2) [OF less.prems] show ?thesis by (subst innerLoop.simps) simp
  next
    case (Some q)
    show ?thesis
    proof (cases "Timestamp q \<le>s thr")
      case True
      have "R (innerLoop e p thr (write_packet e q s'))"
        using rd Some True less.prems
        by (intro less.hyps assms(3) [of s]) (auto dest: readNext_at_shorter)
      with rd Some True show ?thesis by (subst innerLoop.simps) simp
    next
      case False
      with rd Some assms(4) [OF less.prems] show ?thesis by (subst innerLoop.simps) simp
    qed
  qed
qed

section \<open>Invariants of the run\<close>

lemma readNext_Some:
  "readNext prev isInit h rs = ((Some q, f), ev) \<Longrightarrow>
   \<exists>pre d ci. rs = pre @ Rec d ci # unread f
     \<and> q = \<lparr>Timestamp = UnixNano ci, CaptureInfo = ci, Data = d, Reader = h\<rparr>
     \<and> \<not> closed f \<and> d \<noteq> []"
proof (induction prev isInit h rs arbitrary: ev rule: readNext.induct)
  case (1 prev isInit h)
  then show ?case by simp
next
  case (2 prev isInit h rs)
  then obtain ev' where "readNext prev isInit h rs = ((Some q, f), ev')"
    by (auto split: prod.splits)
  from "2.IH" [OF this] show ?case by (metis append_Cons)
next
  case (3 prev isInit h data captureInfo rs)
  show ?case
  proof (cases "(\<not> isInit \<and> UnixNano captureInfo + oneHour <s prev) \<or> length data = 0")
    case True
    with "3.prems" obtain ev' where rn: "readNext prev isInit h rs = ((Some q, f), ev')"
      by (auto simp: Let_def split: prod.splits if_splits)
    from True have "\<exists>pre d ci. rs = pre @ Rec d ci # unread f
     \<and> q = \<lparr>Timestamp = UnixNano ci, CaptureInfo = ci, Data = d, Reader = h\<rparr>
     \<and> \<not> closed f \<and> d \<noteq> []"
      using "3.IH"(1) [OF refl _ rn] "3.IH"(2) [OF refl _ _ rn] by (auto simp: Let_def)
    then show ?thesis by (metis append_Cons)
  next
    case False
    with "3.prems" have "rs = unread f" "\<not> closed f" "data \<noteq> []"
      "q = \<lparr>Timestamp = UnixNano captureInfo, CaptureInfo = captureInfo, Data = data, Reader = h\<rparr>"
      by (auto simp: Let_def)
    then show ?thesis by (metis append_Nil)
  qed
qed

lemma readNext_None:
  "readNext prev isInit h rs = ((None, f), ev) \<Longrightarrow> unread f = [] \<and> closed f"
proof (induction prev isInit h rs arbitrary: ev rule: readNext.induct)
  case (1 prev isInit h)
  then show ?case by auto
next
  case (2 prev isInit h rs)
  then show ?case by (auto split: prod.splits)
next
  case (3 prev isInit h data captureInfo rs)
  then show ?case by (auto simp: Let_def split: prod.splits if_splits)
qed

lemma readNext_at_Some:
  assumes "readNext_at h isInit s = (Some q, s')"
  shows "h < length (files s)"
    and "\<exists>f ev. readNext (previousTimestamp s) isInit h (unread (files s ! h)) = ((Some q, f), ev)
           \<and> s' = s\<lparr>files := (files s)[h := f], trace := trace s @ ev\<rparr>"
  using assms by (auto simp: readNext_at_def split: if_splits prod.splits)

lemma readNext_at_None:
  assumes "readNext_at h isInit s = (None, s')" and "h < length (files s)"
  shows "\<exists>f ev. readNext (previousTimestamp s) isInit h (unread (files s ! h)) = ((None, f), ev)
           \<and> s' = s\<lparr>files := (files s)[h := f], trace := trace s @ ev\<rparr>"
  using assms by (auto simp: readNext_at_def split: if_splits prod.splits)

lemma set_survivors:
  "set (survivors s) = {h. h < length (files s) \<and> \<not> closed (files s ! h)}"
  by (auto simp: survivors_def)

lemma empty_when_closed_update:
  "list_all (\<lambda>f. closed f \<longrightarrow> unread f = []) fl \<Longrightarrow> (closed f \<longrightarrow> unread f = []) \<Longrightarrow>
   list_all (\<lambda>f. closed f \<longrightarrow> unread f = []) (fl[h := f])"
  by (auto simp: list_all_iff dest!: set_update_subset_insert [THEN subsetD])

lemma distinct_Readers_mset:
  "mset h' = add_mset q (mset h) \<Longrightarrow>
   distinct (map Reader h') = (Reader q \<notin> set (map Reader h) \<and> distinct (map Reader h))"
proof -
  assume "mset h' = add_mset q (mset h)"
  then have "mset (map Reader h') = mset (map Reader (q # h))" by simp
  from mset_eq_imp_distinct_iff [OF this] show ?thesis by simp
qed

lemma set_Readers_mset:
  "mset h' = add_mset q (mset h) \<Longrightarrow>
   set (map Reader h') = insert (Reader q) (set (map Reader h))"
proof -
  assume "mset h' = add_mset q (mset h)"
  then have "set h' = insert q (set h)" by (metis mset_eq_setD set_mset_add_mset_insert set_mset_mset)
  then show ?thesis by simp
qed

lemma inner_one_per_source:
  "one_per_other_source (Reader p) s \<Longrightarrow> one_per_source (innerLoop e p thr s)"
proof (rule innerLoop_rule [where Q = "one_per_other_source (Reader p)"])
  fix s s'
  assume q: "one_per_other_source (Reader p) s"
    and rd: "readNext_at (Reader p) False s = (None, s')"
  from q have hl: "Reader p < length (files s)"
    by (auto simp: one_per_other_source_def set_survivors)
  from readNext_at_None [OF rd hl] obtain f ev
    where rn: "readNext (previousTimestamp s) False (Reader p) (unread (files s ! Reader p))
                 = ((None, f), ev)"
      and s': "s' = s\<lparr>files := (files s)[Reader p := f], trace := trace s @ ev\<rparr>" by blast
  from readNext_None [OF rn] have f: "unread f = []" "closed f" by simp_all
  have "set (survivors s') = set (survivors s) - {Reader p}"
    using f hl by (auto simp: set_survivors s' nth_list_update)
  moreover have "list_all (\<lambda>f. closed f \<longrightarrow> unread f = []) (files s')"
    using q f by (simp add: s' one_per_other_source_def empty_when_closed_update)
  moreover have "set (map Reader (minTimeHeap s)) = set (survivors s) - {Reader p}"
    using q unfolding one_per_other_source_def by blast
  ultimately show "one_per_source s'"
    using q by (simp add: one_per_source_def one_per_other_source_def s')
next
  fix s q s'
  assume inv: "one_per_other_source (Reader p) s"
    and rd: "readNext_at (Reader p) False s = (Some q, s')"
  from readNext_at_Some [OF rd] obtain f ev
    where hl: "Reader p < length (files s)"
      and rn: "readNext (previousTimestamp s) False (Reader p) (unread (files s ! Reader p))
                 = ((Some q, f), ev)"
      and s': "s' = s\<lparr>files := (files s)[Reader p := f], trace := trace s @ ev\<rparr>" by blast
  from readNext_Some [OF rn] have f: "\<not> closed f" and rq: "Reader q = Reader p" by auto
  have sv: "set (survivors s') = set (survivors s)"
    using f hl inv by (auto simp: set_survivors s' nth_list_update one_per_other_source_def)
  have ce: "list_all (\<lambda>f. closed f \<longrightarrow> unread f = []) (files s')"
    using inv f by (simp add: s' one_per_other_source_def empty_when_closed_update)
  show "one_per_other_source (Reader p) (write_packet e q s')"
    using inv sv ce by (simp add: one_per_other_source_def s' survivors_def)
  have m: "mset (heap_Push (minTimeHeap s') q) = add_mset q (mset (minTimeHeap s'))" by simp
  show "one_per_source (s'\<lparr>minTimeHeap := heap_Push (minTimeHeap s') q\<rparr>)"
    using inv sv ce distinct_Readers_mset [OF m] set_Readers_mset [OF m] rq
    by (simp add: one_per_source_def one_per_other_source_def s' survivors_def)
qed

lemma outer_one_per_source:
  assumes "one_per_source s" and "minTimeHeap s \<noteq> []"
  shows "one_per_source (outerBody e s)"
proof -
  obtain x h' where pop: "heap_Pop (minTimeHeap s) = (x, h')" by (metis prod.exhaust)
  from heap_Pop_mset [OF assms(2) pop] have m: "mset (minTimeHeap s) = add_mset x (mset h')" .
  have "one_per_other_source (Reader x) (write_packet e x (s\<lparr>minTimeHeap := h'\<rparr>))"
    using assms(1) distinct_Readers_mset [OF m] set_Readers_mset [OF m]
    by (simp add: one_per_source_def one_per_other_source_def survivors_def)
  from inner_one_per_source [OF this] show ?thesis
    by (simp add: outerBody_def pop Let_def)
qed

lemma initOne_one_per_source:
  assumes "one_per_source s"
  shows "one_per_source (snd (initOne e p (lt, s)))"
proof (cases "fs e p")
  case (Pcap rlt rs)
  obtain r f ev where rn: "readNext (previousTimestamp s) True (length (files s)) rs = ((r, f), ev)"
    by (metis prod.exhaust)
  have old: "h < length (files s) \<Longrightarrow> (files s @ [f]) ! h = files s ! h" for h
    by (simp add: nth_append)
  show ?thesis
  proof (cases r)
    case None
    from readNext_None [OF rn [unfolded None]] have f: "unread f = []" "closed f" by simp_all
    have "set (survivors (s\<lparr>files := files s @ [f]\<rparr>)) = set (survivors s)"
      using f by (auto simp: set_survivors nth_append less_Suc_eq)
    then show ?thesis using assms Pcap rn None f
      by (simp add: initOne_def one_per_source_def survivors_def)
  next
    case (Some q)
    from readNext_Some [OF rn [unfolded Some]]
    have f: "\<not> closed f" and rq: "Reader q = length (files s)" by auto
    have sv: "set (survivors (s\<lparr>files := files s @ [f]\<rparr>)) = insert (length (files s)) (set (survivors s))"
      using f by (auto simp: set_survivors nth_append less_Suc_eq)
    have fresh: "length (files s) \<notin> set (map Reader (minTimeHeap s))"
      using assms by (auto simp: one_per_source_def set_survivors)
    have m: "mset (heap_Push (minTimeHeap s) q) = add_mset q (mset (minTimeHeap s))" by simp
    show ?thesis
      using assms Pcap rn Some f sv fresh rq distinct_Readers_mset [OF m] set_Readers_mset [OF m]
      by (simp add: initOne_def one_per_source_def survivors_def)
  qed
qed (use assms in \<open>simp_all add: initOne_def one_per_source_def survivors_def\<close>)

lemma initLoop_one_per_source:
  "one_per_source s \<Longrightarrow> one_per_source (snd (initLoop e ps (lt, s)))"
proof (induction ps arbitrary: lt s)
  case Nil
  then show ?case by simp
next
  case (Cons p ps)
  obtain l1 s1 where a: "initOne e p (lt, s) = (l1, s1)" by (metis prod.exhaust)
  from initOne_one_per_source [OF Cons.prems, of e p lt] a have "one_per_source s1" by simp
  from Cons.IH [OF this, of l1] a show ?case by simp
qed

lemma loop_entry_one_per_source: "one_per_source (loop_entry e f g)"
proof -
  define s0 where "s0 = \<lparr>previousTimestamp = g, files = [], minTimeHeap = [],
              writes = [], trace = [EvBanner]\<rparr>"
  have "one_per_source s0" by (simp add: s0_def one_per_source_def survivors_def)
  moreover obtain l1 s1 where "initLoop e (tl (InFiles f)) (LinkTypeNull, s0) = (l1, s1)"
    by (metis prod.exhaust)
  ultimately have "one_per_source s1"
    using initLoop_one_per_source [of s0 e "tl (InFiles f)" LinkTypeNull] by simp
  then show ?thesis
    using \<open>initLoop e (tl (InFiles f)) (LinkTypeNull, s0) = (l1, s1)\<close>
    by (simp add: loop_entry_def initHeapWithInputFiles_def s0_def one_per_source_def
          survivors_def)
qed

lemma innerLoop_pushes_at_most_one:
  "minTimeHeap (innerLoop e p thr s) = minTimeHeap s
   \<or> (\<exists>q. Reader q = Reader p
          \<and> minTimeHeap (innerLoop e p thr s) = heap_Push (minTimeHeap s) q)"
proof (rule innerLoop_rule [where Q = "\<lambda>t. minTimeHeap t = minTimeHeap s"])
  fix t t'
  assume "minTimeHeap t = minTimeHeap s" "readNext_at (Reader p) False t = (None, t')"
  then show "minTimeHeap t' = minTimeHeap s
     \<or> (\<exists>q. Reader q = Reader p \<and> minTimeHeap t' = heap_Push (minTimeHeap s) q)"
    using readNext_at_total(3) by metis
next
  fix t q t'
  assume a: "minTimeHeap t = minTimeHeap s" "readNext_at (Reader p) False t = (Some q, t')"
  from readNext_at_Some(2) [OF a(2)] have rq: "Reader q = Reader p"
    by (auto dest: readNext_Some)
  from a readNext_at_total(3) [OF a(2)] show "minTimeHeap (write_packet e q t') = minTimeHeap s"
    by simp
  from a readNext_at_total(3) [OF a(2)] rq
  show "minTimeHeap (t'\<lparr>minTimeHeap := heap_Push (minTimeHeap t') q\<rparr>) = minTimeHeap s
     \<or> (\<exists>q'. Reader q' = Reader p
          \<and> minTimeHeap (t'\<lparr>minTimeHeap := heap_Push (minTimeHeap t') q\<rparr>)
              = heap_Push (minTimeHeap s) q')"
    by auto
qed simp

lemma outerBody_pops_one_pushes_at_most_one:
  assumes "minTimeHeap s \<noteq> []" and "heap_Pop (minTimeHeap s) = (x, h')"
  shows "mset (minTimeHeap s) = add_mset x (mset h')"
    and "minTimeHeap (outerBody e s) = h'
         \<or> (\<exists>q. Reader q = Reader x \<and> minTimeHeap (outerBody e s) = heap_Push h' q)"
proof -
  show "mset (minTimeHeap s) = add_mset x (mset h')" using assms by (rule heap_Pop_mset)
  define thr where "thr = (if length h' > 0 then Timestamp (h' ! 0) else 0)"
  from innerLoop_pushes_at_most_one [of e x thr "write_packet e x (s\<lparr>minTimeHeap := h'\<rparr>)"]
  show "minTimeHeap (outerBody e s) = h'
         \<or> (\<exists>q. Reader q = Reader x \<and> minTimeHeap (outerBody e s) = heap_Push h' q)"
    by (simp add: outerBody_def assms(2) Let_def thr_def)
qed

lemma rejected_append [simp]: "rejected (a @ b) = rejected a + rejected b"
  by (simp add: rejected_def)

lemma readNext_accounted:
  "readNext prev isInit h rs = ((r, f), ev) \<Longrightarrow>
   recs (unread f) + rejected ev + (case r of None \<Rightarrow> 0 | Some q \<Rightarrow> 1) = recs rs"
proof (induction prev isInit h rs arbitrary: ev rule: readNext.induct)
  case (1 prev isInit h)
  then show ?case by (auto simp: recs_def rejected_def is_rejection_def)
next
  case (2 prev isInit h rs)
  then obtain ev' where rn: "readNext prev isInit h rs = ((r, f), ev')"
    and ev: "ev = EvSkipDecodeError h # ev'" by (auto split: prod.splits)
  from "2.IH" [OF rn] show ?case
    by (simp add: ev recs_def rejected_def is_rejection_def decoded_def)
next
  case (3 prev isInit h data captureInfo rs)
  show ?case
  proof (cases "\<not> isInit \<and> UnixNano captureInfo + oneHour <s prev")
    case True
    with "3.prems" obtain ev' where rn: "readNext prev isInit h rs = ((r, f), ev')"
      and ev: "ev = EvSkipIllegalTimestamp h captureInfo prev # ev'"
      by (auto simp: Let_def split: prod.splits)
    from "3.IH"(1) [OF refl True rn] show ?thesis
      by (simp add: ev recs_def rejected_def is_rejection_def decoded_def)
  next
    case nt: False
    show ?thesis
    proof (cases "length data = 0")
      case True
      with "3.prems" nt obtain ev' where rn: "readNext prev isInit h rs = ((r, f), ev')"
        and ev: "ev = EvSkipEmpty h # ev'"
        by (auto simp: Let_def split: prod.splits)
      from "3.IH"(2) [OF refl nt True rn] show ?thesis
        by (simp add: ev recs_def rejected_def is_rejection_def decoded_def)
    next
      case False
      with "3.prems" nt show ?thesis
        by (auto simp: Let_def recs_def rejected_def decoded_def)
    qed
  qed
qed

lemma readNext_at_accounted:
  assumes "readNext_at h isInit s = (r, s')"
  shows "accounted s' + (case r of None \<Rightarrow> 0 | Some q \<Rightarrow> 1) = accounted s"
proof (cases "h < length (files s)")
  case True
  obtain r0 f ev where rn: "readNext (previousTimestamp s) isInit h (unread (files s ! h))
      = ((r0, f), ev)" by (metis prod.exhaust)
  with assms True have s': "s' = s\<lparr>files := (files s)[h := f], trace := trace s @ ev\<rparr>"
    and r0: "r0 = r" by (auto simp: readNext_at_def)
  from sum_list_map_update [OF True, of "\<lambda>f. recs (unread f)" f]
    readNext_accounted [OF rn]
  show ?thesis by (simp add: accounted_def s' r0)
next
  case False
  with assms show ?thesis by (auto simp: readNext_at_def)
qed

lemma accounted_write [simp]: "accounted (write_packet e q s) = Suc (accounted s)"
  by (simp add: accounted_def write_packet_def Let_def rejected_def is_rejection_def)

lemma innerLoop_accounted: "accounted (innerLoop e p thr s) = accounted s"
proof (rule innerLoop_rule [where Q = "\<lambda>t. accounted t = accounted s"])
  fix t t' assume "accounted t = accounted s" "readNext_at (Reader p) False t = (None, t')"
  then show "accounted t' = accounted s" using readNext_at_accounted [of "Reader p" False t None t'] by simp
next
  fix t q t'
  assume a: "accounted t = accounted s" "readNext_at (Reader p) False t = (Some q, t')"
  from readNext_at_accounted [OF a(2)] a(1) have *: "Suc (accounted t') = accounted s" by simp
  then show "accounted (write_packet e q t') = accounted s" by simp
  have "accounted (t'\<lparr>minTimeHeap := heap_Push (minTimeHeap t') q\<rparr>) = Suc (accounted t')"
    by (simp add: accounted_def)
  with * show "accounted (t'\<lparr>minTimeHeap := heap_Push (minTimeHeap t') q\<rparr>) = accounted s"
    by simp
qed simp

lemma outerBody_accounted:
  assumes "minTimeHeap s \<noteq> []"
  shows "accounted (outerBody e s) = accounted s"
proof -
  obtain x h' where pop: "heap_Pop (minTimeHeap s) = (x, h')" by (metis prod.exhaust)
  from heap_Pop_length [OF pop] assms have "Suc (length h') = length (minTimeHeap s)"
    by (cases "minTimeHeap s") auto
  then have "Suc (accounted (s\<lparr>minTimeHeap := h'\<rparr>)) = accounted s"
    by (simp add: accounted_def)
  then have "accounted (write_packet e x (s\<lparr>minTimeHeap := h'\<rparr>)) = accounted s"
    by simp
  then show ?thesis by (simp add: outerBody_def pop Let_def innerLoop_accounted)
qed

lemma mergeLoop_accounted: "accounted (mergeLoop e s) = accounted s"
  by (rule mergeLoop_rule(1) [where I = "\<lambda>t. accounted t = accounted s"])
     (simp_all add: outerBody_accounted)

lemma initOne_accounted:
  "accounted (snd (initOne e p (lt, s))) = accounted s + offered e p"
proof (cases "fs e p")
  case (Pcap rlt rs)
  obtain r f ev where rn: "readNext (previousTimestamp s) True (length (files s)) rs = ((r, f), ev)"
    by (metis prod.exhaust)
  from readNext_accounted [OF rn] Pcap rn show ?thesis
    by (cases r)
       (simp_all add: initOne_def accounted_def offered_def rejected_def is_rejection_def)
qed (simp_all add: initOne_def accounted_def offered_def rejected_def is_rejection_def)

lemma initLoop_accounted:
  "accounted (snd (initLoop e ps (lt, s))) = accounted s + sum_list (map (offered e) ps)"
proof (induction ps arbitrary: lt s)
  case Nil
  then show ?case by simp
next
  case (Cons p ps)
  obtain l1 s1 where a: "initOne e p (lt, s) = (l1, s1)" by (metis prod.exhaust)
  from initOne_accounted [of e p lt s] a Cons [of l1 s1] show ?case by simp
qed

lemma loop_entry_accounted:
  "accounted (loop_entry e f g) = sum_list (map (offered e) (tl (InFiles f)))"
proof -
  define s0 where "s0 = \<lparr>previousTimestamp = g, files = [], minTimeHeap = [],
              writes = [], trace = [EvBanner]\<rparr>"
  obtain l1 s1 where a: "initLoop e (tl (InFiles f)) (LinkTypeNull, s0) = (l1, s1)"
    by (metis prod.exhaust)
  have "accounted s0 = 0" by (simp add: s0_def accounted_def rejected_def is_rejection_def)
  with initLoop_accounted [of e "tl (InFiles f)" LinkTypeNull s0] a
  have "accounted s1 = sum_list (map (offered e) (tl (InFiles f)))" by simp
  then show ?thesis using a
    by (simp add: loop_entry_def initHeapWithInputFiles_def s0_def accounted_def
          rejected_def is_rejection_def)
qed

lemma one_per_source_drained:
  assumes "one_per_source s" and "minTimeHeap s = []"
  shows "sum_list (map (\<lambda>f. recs (unread f)) (files s)) = 0"
proof -
  have sv: "set (survivors s) = {}" using assms by (simp add: one_per_source_def)
  have ce: "list_all (\<lambda>f. closed f \<longrightarrow> unread f = []) (files s)"
    using assms(1) by (simp add: one_per_source_def)
  have "recs (unread f) = 0" if "f \<in> set (files s)" for f
  proof -
    from that obtain h where h: "h < length (files s)" "files s ! h = f"
      by (auto simp: in_set_conv_nth)
    with sv have "closed f" unfolding set_survivors by blast
    moreover from ce that have "closed f \<longrightarrow> unread f = []" unfolding list_all_iff by blast
    ultimately show ?thesis by (simp add: recs_def)
  qed
  then have "\<forall>x \<in> set (map (\<lambda>f. recs (unread f)) (files s)). x = 0" by auto
  then show ?thesis by (simp only: sum_list_eq_0_iff)
qed

text \<open>Where every decoded record of the inputs ends up when the run is over.\<close>

lemma conservation:
  assumes "merges e f"
  shows "length (writes (final (joincap e (Parsed f) g)))
         + rejected (trace (final (joincap e (Parsed f) g)))
         = sum_list (map (offered e) (tl (InFiles f)))"
proof -
  define t where "t = mergeLoop e (loop_entry e f g)"
  have "one_per_source t" unfolding t_def
    by (rule mergeLoop_rule(1) [of one_per_source, OF loop_entry_one_per_source
          outer_one_per_source])
  have "minTimeHeap t = []" unfolding t_def by (rule mergeLoop_heap_empty)
  with one_per_source_drained [OF \<open>one_per_source t\<close>]
  have "accounted t = length (writes t) + rejected (trace t)"
    unfolding accounted_def by simp
  moreover have "accounted t = sum_list (map (offered e) (tl (InFiles f)))"
    by (simp add: t_def mergeLoop_accounted loop_entry_accounted)
  ultimately show ?thesis using joincap_merges [OF assms, of g] by (simp add: t_def)
qed

lemma initLoop_writes: "writes (snd (initLoop e ps (lt, s))) = writes s"
proof (induction ps arbitrary: lt s)
  case Nil
  then show ?case by simp
next
  case (Cons p ps)
  obtain l1 s1 where a: "initOne e p (lt, s) = (l1, s1)" by (metis prod.exhaust)
  then have "writes s1 = writes s"
    by (auto simp: initOne_def Let_def split: input_file.splits prod.splits option.splits)
  with Cons [of l1 s1] a show ?case by simp
qed

lemma loop_entry_writes: "writes (loop_entry e f g) = []"
proof -
  define s0 where "s0 = \<lparr>previousTimestamp = g, files = [], minTimeHeap = [],
              writes = [], trace = [EvBanner]\<rparr>"
  obtain l1 s1 where a: "initLoop e (tl (InFiles f)) (LinkTypeNull, s0) = (l1, s1)"
    by (metis prod.exhaust)
  with initLoop_writes [of e "tl (InFiles f)" LinkTypeNull s0] have "writes s1 = []"
    by (simp add: s0_def)
  then show ?thesis using a
    by (simp add: loop_entry_def initHeapWithInputFiles_def s0_def)
qed

lemma readNext_at_writes: "readNext_at h isInit s = (r, s') \<Longrightarrow> writes s' = writes s"
  by (auto simp: readNext_at_def split: if_splits prod.splits)

text \<open>With a sink that never fails, every write succeeds.\<close>

lemma writes_ok:
  assumes "\<forall>n. \<not> write_fails e n" and "merges e f"
  shows "list_all snd (writes (final (joincap e (Parsed f) g)))"
proof -
  have w: "list_all snd (writes (write_packet e q s))" if "list_all snd (writes s)" for q s
    using that assms(1) by (simp add: write_packet_def Let_def)
  have inner: "list_all snd (writes (innerLoop e p thr s))" if "list_all snd (writes s)" for p thr s
  proof (rule innerLoop_rule [where Q = "\<lambda>t. list_all snd (writes t)", OF that])
    fix t t' assume "list_all snd (writes t)" "readNext_at (Reader p) False t = (None, t')"
    then show "list_all snd (writes t')" by (simp add: readNext_at_writes)
  next
    fix t q t' assume a: "list_all snd (writes t)" "readNext_at (Reader p) False t = (Some q, t')"
    then have "list_all snd (writes t')" by (simp add: readNext_at_writes)
    then show "list_all snd (writes (write_packet e q t'))"
      and "list_all snd (writes (t'\<lparr>minTimeHeap := heap_Push (minTimeHeap t') q\<rparr>))"
      by (simp_all add: w)
  qed
  have outer: "list_all snd (writes (outerBody e s))" if "list_all snd (writes s)" for s
  proof -
    obtain x h' where pop: "heap_Pop (minTimeHeap s) = (x, h')" by (metis prod.exhaust)
    have "list_all snd (writes (write_packet e x (s\<lparr>minTimeHeap := h'\<rparr>)))"
      using that by (intro w) simp
    then show ?thesis by (simp add: outerBody_def pop Let_def inner)
  qed
  have "list_all snd (writes (mergeLoop e (loop_entry e f g)))"
    by (rule mergeLoop_rule(1) [where I = "\<lambda>t. list_all snd (writes t)"])
       (simp_all add: loop_entry_writes outer)
  then show ?thesis by (simp add: joincap_merges [OF assms(2)])
qed

section \<open>A single source left\<close>

lemma heap_Push_empty: "heap_Push [] q = [q]"
  by (simp add: heap_Push_def up.simps)

lemma heap_Pop_single: "heap_Pop [p] = (p, [])"
  by (simp add: heap_Pop_def Swap_def down.simps)

lemma emitted_write [simp]: "emitted (write_packet e q s) = emitted s @ [q]"
  by (simp add: emitted_def write_packet_def Let_def)

lemma outerBody_single:
  "minTimeHeap s = [p] \<Longrightarrow>
   outerBody e s = innerLoop e p 0 (write_packet e p (s\<lparr>minTimeHeap := []\<rparr>))"
  by (simp add: outerBody_def heap_Pop_single)

lemma mergeLoop_step:
  "minTimeHeap s \<noteq> [] \<Longrightarrow> mergeLoop e s = mergeLoop e (outerBody e s)"
  by (subst mergeLoop.simps) simp

lemma sole_source_drained:
  assumes "minTimeHeap t = []" and "Reader p < length (files t)"
  shows "emitted (mergeLoop e (innerLoop e p 0 t))
         = emitted t @ drain (previousTimestamp t) (Reader p) (unread (files t ! Reader p))"
  using assms
proof (induction "length (unread (files t ! Reader p))" arbitrary: t p rule: less_induct)
  case less
  let ?h = "Reader p"
  obtain r t' where rd: "readNext_at ?h False t = (r, t')" by (metis prod.exhaust)
  show ?case
  proof (cases r)
    case None
    from readNext_at_None [OF rd [unfolded None] less.prems(2)] obtain f ev
      where rn: "readNext (previousTimestamp t) False ?h (unread (files t ! ?h)) = ((None, f), ev)"
        and t': "t' = t\<lparr>files := (files t)[?h := f], trace := trace t @ ev\<rparr>" by blast
    have "innerLoop e p 0 t = t'" using rd None by (subst innerLoop.simps) simp
    moreover have "mergeLoop e t' = t'" using less.prems(1) by (simp add: mergeLoop_empty t')
    moreover have "drain (previousTimestamp t) ?h (unread (files t ! ?h)) = []"
      using rn by (subst drain.simps) simp
    ultimately show ?thesis by (simp add: t' emitted_def)
  next
    case (Some q)
    from readNext_at_Some(2) [OF rd [unfolded Some]] obtain f ev
      where rn: "readNext (previousTimestamp t) False ?h (unread (files t ! ?h)) = ((Some q, f), ev)"
        and t': "t' = t\<lparr>files := (files t)[?h := f], trace := trace t @ ev\<rparr>" by blast
    from readNext_Some [OF rn] have rq: "Reader q = ?h" by auto
    have shorter: "length (unread f) < length (unread (files t ! ?h))"
      using rn by (rule readNext_shorter)
    have dr: "drain (previousTimestamp t) ?h (unread (files t ! ?h))
                = q # drain (Timestamp q) ?h (unread f)"
      using rn by (subst drain.simps) simp
    have ft: "files t' ! ?h = f" "length (files t') = length (files t)"
      using less.prems(2) by (simp_all add: t')
    show ?thesis
    proof (cases "Timestamp q \<le>s 0")
      case True
      define u where "u = write_packet e q t'"
      have u: "minTimeHeap u = []" "Reader p < length (files u)" "files u ! ?h = f"
        "previousTimestamp u = Timestamp q" "emitted u = emitted t @ [q]"
        using less.prems ft by (simp_all add: u_def t' write_packet_def Let_def emitted_def)
      have "innerLoop e p 0 t = innerLoop e p 0 u"
        using rd Some True by (subst innerLoop.simps) (simp add: u_def)
      moreover have "emitted (mergeLoop e (innerLoop e p 0 u))
          = emitted u @ drain (previousTimestamp u) ?h (unread (files u ! ?h))"
        using shorter u by (intro less.hyps) simp_all
      ultimately show ?thesis using u dr by simp
    next
      case False
      define u where "u = write_packet e q (t'\<lparr>minTimeHeap := []\<rparr>)"
      have u: "minTimeHeap u = []" "Reader q < length (files u)" "files u ! Reader q = f"
        "previousTimestamp u = Timestamp q" "emitted u = emitted t @ [q]"
        using less.prems ft rq by (simp_all add: u_def t' write_packet_def Let_def emitted_def)
      have "innerLoop e p 0 t = t'\<lparr>minTimeHeap := [q]\<rparr>"
        using rd Some False less.prems(1)
        by (subst innerLoop.simps) (simp add: t' heap_Push_empty)
      moreover have "mergeLoop e (t'\<lparr>minTimeHeap := [q]\<rparr>) = mergeLoop e (innerLoop e q 0 u)"
        by (subst mergeLoop_step) (simp_all add: outerBody_single u_def)
      moreover have "emitted (mergeLoop e (innerLoop e q 0 u))
          = emitted u @ drain (previousTimestamp u) (Reader q) (unread (files u ! Reader q))"
        using shorter u by (intro less.hyps) simp_all
      ultimately show ?thesis using u dr rq by simp
    qed
  qed
qed

lemma mergeStates_mergeLoop:
  "t \<in> set (mergeStates e s) \<Longrightarrow> mergeLoop e t = mergeLoop e s"
proof (induction "run_size s" arbitrary: s rule: less_induct)
  case less
  show ?case
  proof (cases "minTimeHeap s = []")
    case True
    with less.prems show ?thesis by (subst (asm) mergeStates.simps) simp
  next
    case False
    from less.prems False have "t = s \<or> t \<in> set (mergeStates e (outerBody e s))"
      by (subst (asm) mergeStates.simps) simp
    then show ?thesis
    proof
      assume "t = s" then show ?thesis by simp
    next
      assume "t \<in> set (mergeStates e (outerBody e s))"
      from less.hyps [OF outerBody_size [OF False] this] False show ?thesis
        by (simp add: mergeLoop_step)
    qed
  qed
qed

section \<open>Time-ordered sources\<close>

lemma rec_keys_append: "rec_keys (a @ b) = rec_keys a @ rec_keys b"
  by (induction a rule: rec_keys.induct) simp_all

lemma readNext_ordered:
  assumes "readNext prev isInit h rs = ((Some q, f), ev)" and "time_ordered rs"
  shows "time_ordered (unread f)"
    and "\<forall>k \<in> set (rec_keys (unread f)). key q \<le> k"
    and "key q \<in> set (rec_keys rs)"
    and "set (rec_keys (unread f)) \<subseteq> set (rec_keys rs)"
    and "Timestamp q = UnixNano (CaptureInfo q)"
    and "Reader q = h"
proof -
  from readNext_Some [OF assms(1)] obtain pre d ci
    where rs: "rs = pre @ Rec d ci # unread f"
      and q: "q = \<lparr>Timestamp = UnixNano ci, CaptureInfo = ci, Data = d, Reader = h\<rparr>"
    by blast
  have k: "rec_keys rs = rec_keys pre @ key q # rec_keys (unread f)"
    by (simp add: rs rec_keys_append q key_def)
  from assms(2) have s: "sorted (rec_keys pre @ key q # rec_keys (unread f))"
    by (simp add: time_ordered_def k)
  show "time_ordered (unread f)" using s by (simp add: time_ordered_def sorted_append)
  show "\<forall>k \<in> set (rec_keys (unread f)). key q \<le> k" using s by (simp add: sorted_append)
  show "key q \<in> set (rec_keys rs)" by (simp add: k)
  show "set (rec_keys (unread f)) \<subseteq> set (rec_keys rs)" by (auto simp: k)
  show "Timestamp q = UnixNano (CaptureInfo q)" "Reader q = h" by (simp_all add: q)
qed

lemma emitted_readNext_at: "readNext_at h isInit s = (r, s') \<Longrightarrow> emitted s' = emitted s"
  by (simp add: emitted_def readNext_at_writes)

lemma set_heap_Push: "set (heap_Push h q) = insert q (set h)"
proof -
  have "mset (heap_Push h q) = mset (q # h)" by simp
  then show ?thesis by (metis mset_eq_setD list.simps(15))
qed

lemma sle_key: "Timestamp q \<le>s thr \<Longrightarrow> key q \<le> sint thr"
  by (simp add: key_def word_sle_eq)

text \<open>What a read from \<open>h0\<close> leaves of the first three parts of the invariant.\<close>

lemma files_update_ordered:
  assumes "ordered_run s" and "h0 < length (files s)"
    and "time_ordered (unread f)"
    and "set (rec_keys (unread f)) \<subseteq> set (rec_keys (unread (files s ! h0)))"
  shows "\<forall>g \<in> set ((files s)[h0 := f]). time_ordered (unread g)"
    and "\<forall>p \<in> set (minTimeHeap s). Reader p < length ((files s)[h0 := f])
            \<and> (\<forall>k \<in> set (rec_keys (unread ((files s)[h0 := f] ! Reader p))). key p \<le> k)"
proof -
  show "\<forall>g \<in> set ((files s)[h0 := f]). time_ordered (unread g)"
  proof
    fix g assume "g \<in> set ((files s)[h0 := f])"
    then have "g = f \<or> g \<in> set (files s)"
      using set_update_subset_insert [of "files s" h0 f] by auto
    with assms(1,3) show "time_ordered (unread g)" by (auto simp: ordered_run_def)
  qed
  show "\<forall>p \<in> set (minTimeHeap s). Reader p < length ((files s)[h0 := f])
            \<and> (\<forall>k \<in> set (rec_keys (unread ((files s)[h0 := f] ! Reader p))). key p \<le> k)"
  proof (intro ballI conjI)
    fix p assume p: "p \<in> set (minTimeHeap s)"
    with assms(1) have pl: "Reader p < length (files s)"
      and pk: "\<forall>k \<in> set (rec_keys (unread (files s ! Reader p))). key p \<le> k"
      by (auto simp: ordered_run_def)
    show "Reader p < length ((files s)[h0 := f])" using pl by simp
    fix k assume k: "k \<in> set (rec_keys (unread ((files s)[h0 := f] ! Reader p)))"
    show "key p \<le> k"
    proof (cases "Reader p = h0")
      case True
      with k assms(2) have "k \<in> set (rec_keys (unread f))" by simp
      with assms(4) True pk show ?thesis by auto
    next
      case False
      with k pk show ?thesis by simp
    qed
  qed
qed

lemma ordered_runD:
  assumes "ordered_run s"
  shows "is_heap (minTimeHeap s)"
    and "\<forall>f \<in> set (files s). time_ordered (unread f)"
    and "\<forall>p \<in> set (minTimeHeap s). Reader p < length (files s)
            \<and> (\<forall>k \<in> set (rec_keys (unread (files s ! Reader p))). key p \<le> k)"
    and "sorted (map key (emitted s))"
    and "\<forall>q \<in> set (emitted s). \<forall>p \<in> set (minTimeHeap s). key q \<le> key p"
    and "\<forall>p \<in> set (minTimeHeap s) \<union> set (emitted s).
            Timestamp p = UnixNano (CaptureInfo p)"
  using assms unfolding ordered_run_def by blast+

lemma ordered_runI:
  assumes "is_heap (minTimeHeap s)"
    and "\<forall>f \<in> set (files s). time_ordered (unread f)"
    and "\<forall>p \<in> set (minTimeHeap s). Reader p < length (files s)
            \<and> (\<forall>k \<in> set (rec_keys (unread (files s ! Reader p))). key p \<le> k)"
    and "sorted (map key (emitted s))"
    and "\<forall>q \<in> set (emitted s). \<forall>p \<in> set (minTimeHeap s). key q \<le> key p"
    and "\<forall>p \<in> set (minTimeHeap s) \<union> set (emitted s).
            Timestamp p = UnixNano (CaptureInfo p)"
  shows "ordered_run s"
  unfolding ordered_run_def using assms by (intro conjI)

lemma inner_ordered:
  "ordered_inner (Reader p) thr s \<Longrightarrow> ordered_run (innerLoop e p thr s)"
proof (rule innerLoop_rule [where Q = "ordered_inner (Reader p) thr"])
  fix s s'
  assume inv: "ordered_inner (Reader p) thr s"
    and rd: "readNext_at (Reader p) False s = (None, s')"
  from inv have run: "ordered_run s" and hl: "Reader p < length (files s)"
    unfolding ordered_inner_def by blast+
  note r = ordered_runD [OF run]
  from readNext_at_None [OF rd hl] obtain f ev
    where rn: "readNext (previousTimestamp s) False (Reader p) (unread (files s ! Reader p))
                 = ((None, f), ev)"
      and s': "s' = s\<lparr>files := (files s)[Reader p := f], trace := trace s @ ev\<rparr>" by blast
  from readNext_None [OF rn] have f: "unread f = []" by simp
  have "time_ordered (unread f)"
    "set (rec_keys (unread f)) \<subseteq> set (rec_keys (unread (files s ! Reader p)))"
    by (simp_all add: f time_ordered_def)
  note fu = files_update_ordered [OF run hl this]
  have st: "minTimeHeap s' = minTimeHeap s" "files s' = (files s)[Reader p := f]"
    "emitted s' = emitted s"
    by (simp_all add: s' emitted_def)
  show "ordered_run s'"
    by (rule ordered_runI; (unfold st)?; fact r fu)
next
  fix s q s'
  assume inv: "ordered_inner (Reader p) thr s"
    and rd: "readNext_at (Reader p) False s = (Some q, s')"
  from inv have run: "ordered_run s" and hl: "Reader p < length (files s)"
    and below: "\<forall>x \<in> set (emitted s).
                  \<forall>k \<in> set (rec_keys (unread (files s ! Reader p))). key x \<le> k"
    and thr: "\<forall>x \<in> set (minTimeHeap s). sint thr \<le> key x"
    unfolding ordered_inner_def by blast+
  note r = ordered_runD [OF run]
  from readNext_at_Some(2) [OF rd] obtain f ev
    where rn: "readNext (previousTimestamp s) False (Reader p) (unread (files s ! Reader p))
                 = ((Some q, f), ev)"
      and s': "s' = s\<lparr>files := (files s)[Reader p := f], trace := trace s @ ev\<rparr>" by blast
  from r(2) hl have tord: "time_ordered (unread (files s ! Reader p))" by simp
  note ro = readNext_ordered [OF rn tord]
  note fu = files_update_ordered [OF run hl ro(1) ro(4)]
  have fh: "(files s)[Reader p := f] ! Reader p = f" using hl by simp
  have eq: "\<forall>x \<in> set (emitted s). key x \<le> key q"
  proof
    fix x assume "x \<in> set (emitted s)"
    with below have "\<forall>k \<in> set (rec_keys (unread (files s ! Reader p))). key x \<le> k" by (rule bspec)
    then show "key x \<le> key q" using ro(3) by (rule bspec)
  qed
  have st: "minTimeHeap s' = minTimeHeap s" "files s' = (files s)[Reader p := f]"
    "emitted s' = emitted s"
    by (simp_all add: s' emitted_def)
  show "ordered_inner (Reader p) thr (write_packet e q s')" if le: "Timestamp q \<le>s thr"
  proof -
    define u where "u = write_packet e q s'"
    have u: "minTimeHeap u = minTimeHeap s" "files u = (files s)[Reader p := f]"
      "emitted u = emitted s @ [q]"
      using st by (simp_all add: u_def)
    have o4: "sorted (map key (emitted s @ [q]))"
      using r(4) eq by (simp add: sorted_append)
    have o5: "\<forall>x \<in> set (emitted s @ [q]). \<forall>y \<in> set (minTimeHeap s). key x \<le> key y"
    proof (intro ballI)
      fix x y assume x: "x \<in> set (emitted s @ [q])" and y: "y \<in> set (minTimeHeap s)"
      from x have "x = q \<or> x \<in> set (emitted s)" by auto
      then show "key x \<le> key y"
      proof
        assume "x = q"
        moreover from thr y have "sint thr \<le> key y" by (rule bspec)
        ultimately show ?thesis using sle_key [OF le] by simp
      next
        assume "x \<in> set (emitted s)"
        with r(5) have "\<forall>p \<in> set (minTimeHeap s). key x \<le> key p" by (rule bspec)
        then show ?thesis using y by (rule bspec)
      qed
    qed
    have o6: "\<forall>x \<in> set (minTimeHeap s) \<union> set (emitted s @ [q]).
            Timestamp x = UnixNano (CaptureInfo x)"
    proof
      fix x assume "x \<in> set (minTimeHeap s) \<union> set (emitted s @ [q])"
      then have "x = q \<or> x \<in> set (minTimeHeap s) \<union> set (emitted s)" by auto
      then show "Timestamp x = UnixNano (CaptureInfo x)"
      proof
        assume "x = q" then show ?thesis using ro(5) by simp
      next
        assume "x \<in> set (minTimeHeap s) \<union> set (emitted s)"
        with r(6) show ?thesis by (rule bspec)
      qed
    qed
    have q6: "\<forall>x \<in> set (emitted s @ [q]).
            \<forall>k \<in> set (rec_keys (unread ((files s)[Reader p := f] ! Reader p))). key x \<le> k"
      unfolding fh
    proof (intro ballI)
      fix x k assume x: "x \<in> set (emitted s @ [q])"
        and k': "k \<in> set (rec_keys (unread f))"
      from x have "x = q \<or> x \<in> set (emitted s)" by auto
      then show "key x \<le> k"
      proof
        assume "x = q" with ro(2) k' show ?thesis by simp
      next
        assume x': "x \<in> set (emitted s)"
        from ro(4) k' have "k \<in> set (rec_keys (unread (files s ! Reader p)))" by (rule subsetD)
        with below x' show ?thesis by simp
      qed
    qed
    have "ordered_run u"
      by (rule ordered_runI; (unfold u)?; fact r(1) fu o4 o5 o6)
    moreover have "Reader p < length (files u)" using hl by (simp add: u)
    ultimately show ?thesis
      unfolding ordered_inner_def u_def [symmetric] using q6 thr by (simp only: u)
  qed
  show "ordered_run (s'\<lparr>minTimeHeap := heap_Push (minTimeHeap s') q\<rparr>)"
  proof -
    define u where "u = s'\<lparr>minTimeHeap := heap_Push (minTimeHeap s') q\<rparr>"
    have "emitted u = emitted s'" by (simp add: emitted_def u_def)
    then have u: "minTimeHeap u = heap_Push (minTimeHeap s) q"
      "files u = (files s)[Reader p := f]" "emitted u = emitted s"
      using st by (simp_all add: u_def)
    have hu: "set (heap_Push (minTimeHeap s) q) = insert q (set (minTimeHeap s))"
      by (rule set_heap_Push)
    have o1: "is_heap (heap_Push (minTimeHeap s) q)" using r(1) by (rule is_heap_Push)
    have o3: "\<forall>x \<in> set (heap_Push (minTimeHeap s) q).
            Reader x < length ((files s)[Reader p := f])
            \<and> (\<forall>k \<in> set (rec_keys (unread ((files s)[Reader p := f] ! Reader x))). key x \<le> k)"
      unfolding hu
    proof
      fix x assume "x \<in> insert q (set (minTimeHeap s))"
      then have "x = q \<or> x \<in> set (minTimeHeap s)" by simp
      then show "Reader x < length ((files s)[Reader p := f])
            \<and> (\<forall>k \<in> set (rec_keys (unread ((files s)[Reader p := f] ! Reader x))). key x \<le> k)"
      proof
        assume "x = q"
        then show ?thesis using ro(2) ro(6) hl fh by simp
      next
        assume "x \<in> set (minTimeHeap s)"
        then show ?thesis by (rule fu(2) [THEN bspec])
      qed
    qed
    have o5: "\<forall>x \<in> set (emitted s). \<forall>y \<in> set (heap_Push (minTimeHeap s) q). key x \<le> key y"
      unfolding hu
    proof (intro ballI)
      fix x y assume x: "x \<in> set (emitted s)" and "y \<in> insert q (set (minTimeHeap s))"
      then have "y = q \<or> y \<in> set (minTimeHeap s)" by simp
      then show "key x \<le> key y"
      proof
        assume "y = q" then show ?thesis using eq x by simp
      next
        assume y: "y \<in> set (minTimeHeap s)"
        from r(5) x have "\<forall>p \<in> set (minTimeHeap s). key x \<le> key p" by (rule bspec)
        then show ?thesis using y by (rule bspec)
      qed
    qed
    have o6: "\<forall>x \<in> set (heap_Push (minTimeHeap s) q) \<union> set (emitted s).
            Timestamp x = UnixNano (CaptureInfo x)"
      unfolding hu
    proof
      fix x assume "x \<in> insert q (set (minTimeHeap s)) \<union> set (emitted s)"
      then have "x = q \<or> x \<in> set (minTimeHeap s) \<union> set (emitted s)" by auto
      then show "Timestamp x = UnixNano (CaptureInfo x)"
      proof
        assume "x = q" then show ?thesis using ro(5) by simp
      next
        assume "x \<in> set (minTimeHeap s) \<union> set (emitted s)"
        with r(6) show ?thesis by (rule bspec)
      qed
    qed
    have "ordered_run u"
      by (rule ordered_runI; (unfold u)?; fact o1 fu(1) o3 r(4) o5 o6)
    then show ?thesis by (simp add: u_def)
  qed
qed

lemma outer_ordered:
  assumes "ordered_run s" and "minTimeHeap s \<noteq> []"
  shows "ordered_run (outerBody e s)"
proof -
  obtain x h' where pop: "heap_Pop (minTimeHeap s) = (x, h')" by (metis prod.exhaust)
  from assms(1) have hp: "is_heap (minTimeHeap s)" by (simp add: ordered_run_def)
  note ph = heap_Pop_is_heap [OF hp assms(2) pop]
  from heap_Pop_mset [OF assms(2) pop] have "set (minTimeHeap s) = insert x (set h')"
    by (metis mset_eq_setD set_mset_add_mset_insert set_mset_mset)
  then have sub: "set h' \<subseteq> set (minTimeHeap s)" and xin: "x \<in> set (minTimeHeap s)" by auto
  define thr where "thr = (if length h' > 0 then Timestamp (h' ! 0) else 0)"
  define u where "u = write_packet e x (s\<lparr>minTimeHeap := h'\<rparr>)"
  have u: "minTimeHeap u = h'" "files u = files s" "emitted u = emitted s @ [x]"
    by (simp_all add: u_def write_packet_def Let_def emitted_def)
  from assms(1) xin have xl: "Reader x < length (files s)"
    and xk: "\<forall>k \<in> set (rec_keys (unread (files s ! Reader x))). key x \<le> k"
    and ex: "\<forall>q \<in> set (emitted s). key q \<le> key x"
    by (auto simp: ordered_run_def)
  have "ordered_inner (Reader x) thr u" unfolding ordered_inner_def ordered_run_def u
  proof (intro conjI)
    show "is_heap h'" by (rule ph(1))
    show "\<forall>f \<in> set (files s). time_ordered (unread f)"
      using assms(1) by (simp add: ordered_run_def)
    show "\<forall>p \<in> set h'. Reader p < length (files s)
            \<and> (\<forall>k \<in> set (rec_keys (unread (files s ! Reader p))). key p \<le> k)"
      using assms(1) sub by (auto simp: ordered_run_def)
    show "sorted (map key (emitted s @ [x]))"
      using assms(1) ex by (simp add: ordered_run_def sorted_append)
    show "\<forall>q \<in> set (emitted s @ [x]). \<forall>p \<in> set h'. key q \<le> key p"
      using assms(1) sub ph(3) by (auto simp: ordered_run_def)
    show "\<forall>p \<in> set h' \<union> set (emitted s @ [x]). Timestamp p = UnixNano (CaptureInfo p)"
      using assms(1) sub xin by (auto simp: ordered_run_def)
    show "Reader x < length (files s)" by (rule xl)
    show "\<forall>q \<in> set (emitted s @ [x]).
            \<forall>k \<in> set (rec_keys (unread (files s ! Reader x))). key q \<le> k"
      using xk ex by force
    show "\<forall>p \<in> set h'. sint thr \<le> key p"
    proof
      fix p assume p: "p \<in> set h'"
      then obtain j where j: "j < length h'" "h' ! j = p" by (auto simp: in_set_conv_nth)
      then have "thr = Timestamp (h' ! 0)" by (auto simp: thr_def)
      with is_heap_root [OF ph(1) j(1)] j(2) show "sint thr \<le> key p" by (simp add: key_def)
    qed
  qed
  from inner_ordered [OF this, of e] show ?thesis
    by (simp add: outerBody_def pop Let_def thr_def u_def)
qed

lemma ordered_run_cong:
  "ordered_run s \<Longrightarrow> minTimeHeap t = minTimeHeap s \<Longrightarrow> files t = files s
   \<Longrightarrow> emitted t = emitted s \<Longrightarrow> ordered_run t"
  by (simp add: ordered_run_def)

lemma initOne_ordered:
  assumes "ordered_run s" and "writes s = []" and "time_ordered_input e p"
  shows "ordered_run (snd (initOne e p (lt, s)))"
proof (cases "fs e p")
  case OpenError
  show ?thesis
    by (rule ordered_run_cong [OF assms(1)]) (simp_all add: initOne_def OpenError emitted_def)
next
  case HeaderError
  show ?thesis
    by (rule ordered_run_cong [OF assms(1)]) (simp_all add: initOne_def HeaderError emitted_def)
next
  case (Pcap rlt rs)
  note r = ordered_runD [OF assms(1)]
  from Pcap assms(3) have tord: "time_ordered rs" by (simp add: time_ordered_input_def)
  obtain r0 f ev where rn: "readNext (previousTimestamp s) True (length (files s)) rs = ((r0, f), ev)"
    by (metis prod.exhaust)
  have em: "emitted s = []" using assms(2) by (simp add: emitted_def)
  have old: "\<forall>x \<in> set (minTimeHeap s). Reader x < length (files s @ [f])
            \<and> (\<forall>k \<in> set (rec_keys (unread ((files s @ [f]) ! Reader x))). key x \<le> k)"
  proof
    fix x assume "x \<in> set (minTimeHeap s)"
    with r(3) have x: "Reader x < length (files s)
       \<and> (\<forall>k \<in> set (rec_keys (unread (files s ! Reader x))). key x \<le> k)" by (rule bspec)
    then show "Reader x < length (files s @ [f])
            \<and> (\<forall>k \<in> set (rec_keys (unread ((files s @ [f]) ! Reader x))). key x \<le> k)"
      by (simp add: nth_append)
  qed
  define s1 where "s1 = snd (initOne e p (lt, s))"
  show ?thesis unfolding s1_def [symmetric]
  proof (cases r0)
    case None
    from readNext_None [OF rn [unfolded None]] have f: "unread f = []" by simp
    have s1: "files s1 = files s @ [f]" "minTimeHeap s1 = minTimeHeap s" "emitted s1 = []"
      using Pcap rn None em by (simp_all add: s1_def initOne_def emitted_def)
    have o2: "\<forall>g \<in> set (files s @ [f]). time_ordered (unread g)"
      using r(2) f by (simp add: time_ordered_def)
    have o4: "sorted (map key [])" by simp
    have o5: "\<forall>q \<in> set []. \<forall>p \<in> set (minTimeHeap s). key q \<le> key p" by simp
    have o6: "\<forall>p \<in> set (minTimeHeap s) \<union> set []. Timestamp p = UnixNano (CaptureInfo p)"
      using r(6) by simp
    show "ordered_run s1"
      by (rule ordered_runI; (unfold s1)?; fact r(1) o2 old o4 o5 o6)
  next
    case (Some q)
    note ro = readNext_ordered [OF rn [unfolded Some] tord]
    have s1: "files s1 = files s @ [f]" "minTimeHeap s1 = heap_Push (minTimeHeap s) q"
      "emitted s1 = []"
      using Pcap rn Some em by (simp_all add: s1_def initOne_def emitted_def)
    have hu: "set (heap_Push (minTimeHeap s) q) = insert q (set (minTimeHeap s))"
      by (rule set_heap_Push)
    have o1: "is_heap (heap_Push (minTimeHeap s) q)" using r(1) by (rule is_heap_Push)
    have o2: "\<forall>g \<in> set (files s @ [f]). time_ordered (unread g)"
      using r(2) ro(1) by simp
    have o3: "\<forall>x \<in> set (heap_Push (minTimeHeap s) q). Reader x < length (files s @ [f])
            \<and> (\<forall>k \<in> set (rec_keys (unread ((files s @ [f]) ! Reader x))). key x \<le> k)"
      unfolding hu
    proof
      fix x assume "x \<in> insert q (set (minTimeHeap s))"
      then have "x = q \<or> x \<in> set (minTimeHeap s)" by simp
      then show "Reader x < length (files s @ [f])
            \<and> (\<forall>k \<in> set (rec_keys (unread ((files s @ [f]) ! Reader x))). key x \<le> k)"
      proof
        assume "x = q"
        then show ?thesis using ro(2) ro(6) by simp
      next
        assume "x \<in> set (minTimeHeap s)"
        then show ?thesis by (rule old [THEN bspec])
      qed
    qed
    have o4: "sorted (map key [])" by simp
    have o5: "\<forall>x \<in> set []. \<forall>y \<in> set (heap_Push (minTimeHeap s) q). key x \<le> key y" by simp
    have o6: "\<forall>x \<in> set (heap_Push (minTimeHeap s) q) \<union> set [].
               Timestamp x = UnixNano (CaptureInfo x)"
      unfolding hu using r(6) ro(5) by simp
    show "ordered_run s1"
      by (rule ordered_runI; (unfold s1)?; fact o1 o2 o3 o4 o5 o6)
  qed
qed

lemma initLoop_ordered:
  "ordered_run s \<Longrightarrow> writes s = [] \<Longrightarrow> \<forall>p \<in> set ps. time_ordered_input e p \<Longrightarrow>
   ordered_run (snd (initLoop e ps (lt, s)))"
proof (induction ps arbitrary: lt s)
  case Nil
  then show ?case by simp
next
  case (Cons p ps)
  obtain l1 s1 where a: "initOne e p (lt, s) = (l1, s1)" by (metis prod.exhaust)
  from initOne_ordered [OF Cons.prems(1,2), of e p lt] Cons.prems(3) a
  have "ordered_run s1" by simp
  moreover have "writes s1 = []"
    using initLoop_writes [of e "[p]" lt s] a Cons.prems(2) by simp
  ultimately show ?case using Cons.IH [of s1 l1] Cons.prems(3) a by simp
qed

lemma loop_entry_ordered:
  assumes "\<forall>p \<in> set (tl (InFiles f)). time_ordered_input e p"
  shows "ordered_run (loop_entry e f g)"
proof -
  define s0 where "s0 = \<lparr>previousTimestamp = g, files = [], minTimeHeap = [],
              writes = [], trace = [EvBanner]\<rparr>"
  have "ordered_run s0"
    by (simp add: s0_def ordered_run_def emitted_def is_heap_def is_heap_upto_def)
  moreover obtain l1 s1 where a: "initLoop e (tl (InFiles f)) (LinkTypeNull, s0) = (l1, s1)"
    by (metis prod.exhaust)
  ultimately have s1: "ordered_run s1"
    using initLoop_ordered [of s0 "tl (InFiles f)" e LinkTypeNull] assms by (simp add: s0_def)
  have le: "loop_entry e f g
      = s1\<lparr>trace := trace s1 @ [EvMerging (length (minTimeHeap s1)),
                                 EvWritingTo (OutputFilePath f)]\<rparr>"
    using a by (simp add: loop_entry_def initHeapWithInputFiles_def s0_def)
  show ?thesis
    by (rule ordered_run_cong [OF s1]) (simp_all add: le emitted_def)
qed

section \<open>No record from nowhere\<close>

lemma records_append: "records (a @ b) = records a @ records b"
  by (induction a rule: records.induct) simp_all

lemma length_records: "length (records rs) = recs rs"
  by (induction rs rule: records.induct) (simp_all add: recs_def decoded_def)

lemma readNext_held:
  "readNext prev isInit h rs = ((r, f), ev) \<Longrightarrow>
   mset (records (unread f)) + (case r of None \<Rightarrow> {#} | Some q \<Rightarrow> {#content q#})
     \<subseteq># mset (records rs)"
proof (cases r)
  case None
  assume "readNext prev isInit h rs = ((r, f), ev)"
  with None readNext_None [of prev isInit h rs f ev] show ?thesis by simp
next
  case (Some q)
  assume "readNext prev isInit h rs = ((r, f), ev)"
  with Some readNext_Some [of prev isInit h rs q f ev] obtain pre d ci
    where "rs = pre @ Rec d ci # unread f"
      and "q = \<lparr>Timestamp = UnixNano ci, CaptureInfo = ci, Data = d, Reader = h\<rparr>"
    by blast
  then show ?thesis using Some by (simp add: records_append content_def)
qed

lemma sum_list_mset_update:
  "k < length xs \<Longrightarrow>
   sum_list (map f (xs[k := y])) + f (xs ! k) = sum_list (map f xs) + (f y :: 'a multiset)"
proof (induction xs arbitrary: k)
  case Nil
  then show ?case by simp
next
  case (Cons a xs)
  show ?case
  proof (cases k)
    case 0
    then show ?thesis by (simp add: ac_simps)
  next
    case (Suc j)
    with Cons.prems have "j < length xs" by simp
    from Cons.IH [OF this] Suc show ?thesis by (simp add: ac_simps)
  qed
qed

lemma readNext_at_held:
  assumes "readNext_at h isInit s = (r, s')"
  shows "held s' + (case r of None \<Rightarrow> {#} | Some q \<Rightarrow> {#content q#}) \<subseteq># held s"
proof (cases "h < length (files s)")
  case True
  obtain r0 f ev where rn: "readNext (previousTimestamp s) isInit h (unread (files s ! h))
      = ((r0, f), ev)" by (metis prod.exhaust)
  with assms True have s': "s' = s\<lparr>files := (files s)[h := f], trace := trace s @ ev\<rparr>"
    and r0: "r0 = r" by (auto simp: readNext_at_def)
  define U where "U = sum_list (map (\<lambda>f. mset (records (unread f))) (files s))"
  define U' where "U' = sum_list (map (\<lambda>f. mset (records (unread f))) ((files s)[h := f]))"
  define X where "X = (case r of None \<Rightarrow> {#} | Some q \<Rightarrow> {#content q#})"
  from sum_list_mset_update [OF True, of "\<lambda>f. mset (records (unread f))" f]
  have u: "U' + mset (records (unread (files s ! h))) = U + mset (records (unread f))"
    by (simp add: U_def U'_def)
  from readNext_held [OF rn] have "mset (records (unread f)) + X
      \<subseteq># mset (records (unread (files s ! h)))" by (simp add: X_def r0)
  then obtain D where d: "mset (records (unread (files s ! h))) = mset (records (unread f)) + X + D"
    by (metis mset_subset_eq_exists_conv)
  from u d have "U' + (mset (records (unread f)) + X + D) = U + mset (records (unread f))"
    by simp
  then have "U' + X + D = U" by (simp add: ac_simps)
  then have "U' + X \<subseteq># U" by (metis mset_subset_eq_add_left)
  then show ?thesis
    by (simp add: held_def s' emitted_def U_def [symmetric] U'_def [symmetric]
          X_def [symmetric] ac_simps)
next
  case False
  with assms show ?thesis by (auto simp: readNext_at_def)
qed

lemma held_write: "held (write_packet e q s) = held s + {#content q#}"
  by (simp add: held_def emitted_def write_packet_def Let_def)

lemma innerLoop_held: "held (innerLoop e p thr s) \<subseteq># held s"
proof (rule innerLoop_rule [where Q = "\<lambda>t. held t \<subseteq># held s"])
  fix t t' assume a: "held t \<subseteq># held s" "readNext_at (Reader p) False t = (None, t')"
  from readNext_at_held [OF a(2)] a(1) show "held t' \<subseteq># held s" by simp
next
  fix t q t'
  assume a: "held t \<subseteq># held s" "readNext_at (Reader p) False t = (Some q, t')"
  from readNext_at_held [OF a(2)] have "held t' + {#content q#} \<subseteq># held t" by simp
  then have *: "held t' + {#content q#} \<subseteq># held s"
    using a(1) by (rule subset_mset.order_trans)
  then show "held (write_packet e q t') \<subseteq># held s" by (simp add: held_write)
  have "held (t'\<lparr>minTimeHeap := heap_Push (minTimeHeap t') q\<rparr>) = held t' + {#content q#}"
    by (simp add: held_def emitted_def)
  with * show "held (t'\<lparr>minTimeHeap := heap_Push (minTimeHeap t') q\<rparr>) \<subseteq># held s"
    by simp
qed simp

lemma outerBody_held:
  assumes "minTimeHeap s \<noteq> []"
  shows "held (outerBody e s) \<subseteq># held s"
proof -
  obtain x h' where pop: "heap_Pop (minTimeHeap s) = (x, h')" by (metis prod.exhaust)
  from heap_Pop_mset [OF assms pop] have "mset (minTimeHeap s) = add_mset x (mset h')" .
  then have "mset (map content (minTimeHeap s)) = add_mset (content x) (mset (map content h'))"
    by simp
  then have "held (write_packet e x (s\<lparr>minTimeHeap := h'\<rparr>)) = held s"
    by (simp add: held_write) (simp add: held_def emitted_def)
  with innerLoop_held [of e x _ "write_packet e x (s\<lparr>minTimeHeap := h'\<rparr>)"]
  show ?thesis by (simp add: outerBody_def pop Let_def)
qed

lemma mergeLoop_held: "held (mergeLoop e s) \<subseteq># held s"
proof (rule mergeLoop_rule(1) [where I = "\<lambda>t. held t \<subseteq># held s"])
  fix t assume "held t \<subseteq># held s" "minTimeHeap t \<noteq> []"
  with outerBody_held [of t e] show "held (outerBody e t) \<subseteq># held s"
    by (meson subset_mset.order_trans)
qed simp

lemma initOne_held:
  "held (snd (initOne e p (lt, s))) \<subseteq># held s + offered_records e p"
proof (cases "fs e p")
  case (Pcap rlt rs)
  obtain r f ev where rn: "readNext (previousTimestamp s) True (length (files s)) rs = ((r, f), ev)"
    by (metis prod.exhaust)
  from readNext_held [OF rn] Pcap rn show ?thesis
    by (cases r)
       (simp_all add: initOne_def held_def offered_records_def emitted_def ac_simps)
qed (simp_all add: initOne_def held_def offered_records_def emitted_def)

lemma initLoop_held:
  "held (snd (initLoop e ps (lt, s))) \<subseteq># held s + sum_list (map (offered_records e) ps)"
proof (induction ps arbitrary: lt s)
  case Nil
  then show ?case by simp
next
  case (Cons p ps)
  obtain l1 s1 where a: "initOne e p (lt, s) = (l1, s1)" by (metis prod.exhaust)
  from initOne_held [of e p lt s] a have "held s1 \<subseteq># held s + offered_records e p" by simp
  then have b: "held s1 + sum_list (map (offered_records e) ps)
      \<subseteq># held s + offered_records e p + sum_list (map (offered_records e) ps)"
    by simp
  have "held (snd (initLoop e ps (l1, s1)))
      \<subseteq># held s + offered_records e p + sum_list (map (offered_records e) ps)"
    using Cons.IH [of l1 s1] b by (rule subset_mset.order_trans)
  then show ?case using a by (simp add: ac_simps)
qed

lemma loop_entry_held:
  "held (loop_entry e f g) \<subseteq># sum_list (map (offered_records e) (tl (InFiles f)))"
proof -
  define s0 where "s0 = \<lparr>previousTimestamp = g, files = [], minTimeHeap = [],
              writes = [], trace = [EvBanner]\<rparr>"
  obtain l1 s1 where a: "initLoop e (tl (InFiles f)) (LinkTypeNull, s0) = (l1, s1)"
    by (metis prod.exhaust)
  have "held s0 = {#}" by (simp add: s0_def held_def emitted_def)
  with initLoop_held [of e "tl (InFiles f)" LinkTypeNull s0] a
  have "held s1 \<subseteq># sum_list (map (offered_records e) (tl (InFiles f)))" by simp
  moreover have "held (loop_entry e f g) = held s1"
    using a by (simp add: loop_entry_def initHeapWithInputFiles_def s0_def held_def emitted_def)
  ultimately show ?thesis by simp
qed

text \<open>The records written are among those the inputs offer, each as often at most.\<close>

lemma written_offered:
  "mset (map content (emitted (final (joincap e (Parsed f) g))))
     \<subseteq># sum_list (map (offered_records e) (tl (InFiles f)))"
proof (cases "merges e f")
  case True
  have "mset (map content (emitted (mergeLoop e (loop_entry e f g))))
          \<subseteq># held (mergeLoop e (loop_entry e f g))"
    by (simp add: held_def)
  also have "\<dots> \<subseteq># held (loop_entry e f g)" by (rule mergeLoop_held)
  also have "\<dots> \<subseteq># sum_list (map (offered_records e) (tl (InFiles f)))"
    by (rule loop_entry_held)
  finally show ?thesis by (simp add: joincap_merges [OF True])
next
  case False
  from joincap_not_merges [OF this, of g] show ?thesis by (simp add: emitted_def)
qed

lemma mset_subset_same_size: "A \<subseteq># B \<Longrightarrow> size A = size B \<Longrightarrow> A = B"
  using mset_subset_size [of A B] by (auto simp: subset_mset.less_le)

section \<open>Claims\<close>

subsection \<open>Reading\<close>

text \<open>
  C3. In a read that is not an initialization read, a decoded record whose time
  stamp plus one hour (in nanoseconds, as numbers) is below the current
  \<open>previousTimestamp\<close> is dropped: the read gives exactly what reading on from
  the next result of the same source gives, with the skip event in front. The
  record is not returned, and the file is closed only when the reading that
  follows reaches the end of the stream.
\<close>

theorem readNext_drops_stale:
  assumes "sint (UnixNano captureInfo) + sint oneHour < sint prev"
  shows "readNext prev False h (Rec data captureInfo # rs) =
           (case readNext prev False h rs of
              (rf, ev) \<Rightarrow> (rf, EvSkipIllegalTimestamp h captureInfo prev # ev))
         \<and> closed (snd (fst (readNext prev False h (Rec data captureInfo # rs)))) =
           (fst (fst (readNext prev False h rs)) = None)"
proof -
  have eq: "readNext prev False h (Rec data captureInfo # rs) =
           (case readNext prev False h rs of
              (rf, ev) \<Rightarrow> (rf, EvSkipIllegalTimestamp h captureInfo prev # ev))"
    using stale_no_wrap [OF assms] by simp
  obtain r f ev where rn: "readNext prev False h rs = ((r, f), ev)"
    by (metis prod.exhaust)
  show ?thesis using eq readNext_closed_iff [OF rn] by (simp add: rn)
qed

theorem readNext_drops_stale_witness:
  "sint (UnixNano stale_ci) + sint oneHour < sint (7200000000100 :: int64)
   \<and> readNext 7200000000100 False 0 [Rec [1] stale_ci, Rec [2] fresh_ci] =
       ((Some \<lparr>Timestamp = 7200000000000, CaptureInfo = fresh_ci, Data = [2], Reader = 0\<rparr>,
         \<lparr>unread = [], closed = False\<rparr>),
        [EvSkipIllegalTimestamp 0 stale_ci 7200000000100])"
proof -
  have h: "sint (UnixNano stale_ci) + sint oneHour < sint (7200000000100 :: int64)"
    by (simp add: stale_ci_def oneHour_def)
  have r: "readNext 7200000000100 False 0 [Rec [2] fresh_ci] =
       ((Some \<lparr>Timestamp = 7200000000000, CaptureInfo = fresh_ci, Data = [2], Reader = 0\<rparr>,
         \<lparr>unread = [], closed = False\<rparr>), [])"
    by (simp add: fresh_ci_def oneHour_def)
  show ?thesis
    using h readNext_drops_stale [OF h, of 0 "[1]" "[Rec [2] fresh_ci]"] r by simp
qed

text \<open>
  C6 as stated fails: the check for an empty payload is not bypassed in an
  initialization read. Here the only record of a source is decoded, has no
  payload, and the initialization read ends at the end of the stream.
\<close>

theorem init_read_rejects_empty:
  "readNext 0 True 0 [Rec [] empty_ci] =
     ((None, \<lparr>unread = [], closed = True\<rparr>), [EvSkipEmpty 0, EvDone 0])"
  by simp

text \<open>
  C6, amended. An initialization read bypasses the one-hour check only: a decoded
  record with a payload is accepted whatever its time stamp and whatever
  \<open>previousTimestamp\<close> holds, no record is skipped for its time stamp, and a
  decoded record without payload is skipped as in every other read.
\<close>

theorem init_read_accepts_nonempty:
  "(data \<noteq> [] \<longrightarrow>
      readNext prev True h (Rec data captureInfo # rs) =
        ((Some \<lparr>Timestamp = UnixNano captureInfo, CaptureInfo = captureInfo,
                 Data = data, Reader = h\<rparr>,
          \<lparr>unread = rs, closed = False\<rparr>), []))
   \<and> (\<forall>ev \<in> set (snd (readNext prev True h rs)). \<not> is_illegal_timestamp ev)
   \<and> readNext prev True h (Rec [] captureInfo # rs) =
        (case readNext prev True h rs of (rf, ev) \<Rightarrow> (rf, EvSkipEmpty h # ev))"
  using readNext_init_events [of prev h rs] by simp

theorem init_read_accepts_nonempty_witness:
  "readNext 7200000000100 True 0 [Rec [1] empty_ci] =
     ((Some \<lparr>Timestamp = 5, CaptureInfo = empty_ci, Data = [1], Reader = 0\<rparr>,
       \<lparr>unread = [], closed = False\<rparr>), [])
   \<and> \<not> list_ex is_illegal_timestamp
         (snd (readNext 7200000000100 True 0 [Rec [1] empty_ci]))"
  using init_read_accepts_nonempty [of "[1]" 7200000000100 0 empty_ci "[]"]
        init_read_accepts_nonempty [of "[1]" 7200000000100 0 empty_ci "[Rec [1] empty_ci]"]
  by (simp add: empty_ci_def list_ex_iff)

subsection \<open>Initialization\<close>

text \<open>
  C7 at the input where the code departs from it: the first opened source has
  link type \<open>LinkTypeNull\<close> (0, BSD loopback), the value the code also uses for
  "not seeded yet", and the second has link type 101. The header gets 101, not
  the Ethernet fallback.
\<close>

theorem link_type_null_seed:
  "fileHeader (joincap null_then_raw (flags_of [''lo.pcap'', ''raw.pcap'']) 0)
     = Some (maxSnaplen, 101)
   \<and> (101 :: LinkType) \<noteq> LinkTypeEthernet"
  by (simp add: joincap_def flags_of_def null_then_raw_def initHeapWithInputFiles_def
        initOne_def LinkTypeNull_def LinkTypeEthernet_def Let_def split: prod.splits)

text \<open>
  C10 as stated fails in its last part: an input that opens and parses but yields
  no first record is skipped after its link type was taken, so the header need
  not carry \<open>LinkTypeNull\<close>.
\<close>

theorem all_skipped_header_not_null:
  "skipped header_only ''a.pcap''
   \<and> fileHeader (joincap header_only (flags_of [''a.pcap'']) 0)
       = Some (maxSnaplen, LinkTypeEthernet)
   \<and> LinkTypeEthernet \<noteq> LinkTypeNull"
  by (simp add: skipped_def joincap_def flags_of_def header_only_def
        initHeapWithInputFiles_def initOne_def LinkTypeNull_def LinkTypeEthernet_def Let_def
        split: prod.splits)

text \<open>
  C10, amended. \<open>initHeapWithInputFiles\<close> returns a \<open>nil\<close> error for every list of
  paths, and \<open>joincap\<close> never returns the "cannot initialize merge" error. When
  all inputs are skipped and the output is standard output or can be created,
  \<open>joincap\<close> returns \<open>nil\<close>, writes a file header with snaplen 262144 and writes no
  record. The header's link type is the one resolved, in order, from the inputs
  that opened with a reader, whether or not they yielded a first record; it is
  \<open>LinkTypeNull\<close> when every input failed to open or to parse.
\<close>

theorem init_never_fails:
  "snd (fst (initHeapWithInputFiles e inputFilePaths s)) = None
   \<and> ret (joincap e parsed g) \<noteq> Returned (Some CannotInitializeMerge)
   \<and> ((\<forall>p \<in> set inputFilePaths. skipped e p)
        \<and> \<not> Version cmdFlags \<and> InFiles cmdFlags = prog # inputFilePaths
        \<and> (OutputFilePath cmdFlags = ''-'' \<or> \<not> create_fails e (OutputFilePath cmdFlags))
      \<longrightarrow> ret (joincap e (Parsed cmdFlags) g) = Returned None
          \<and> fileHeader (joincap e (Parsed cmdFlags) g)
              = Some (262144, foldl resolve LinkTypeNull (opened_link_types e inputFilePaths))
          \<and> ((\<forall>p \<in> set inputFilePaths. no_reader e p) \<longrightarrow>
                fileHeader (joincap e (Parsed cmdFlags) g) = Some (262144, LinkTypeNull))
          \<and> writes (final (joincap e (Parsed cmdFlags) g)) = [])"
proof (intro conjI impI)
  show nil: "snd (fst (initHeapWithInputFiles e inputFilePaths s)) = None" for inputFilePaths s
    by (simp add: initHeapWithInputFiles_def split: prod.splits)
  show "ret (joincap e parsed g) \<noteq> Returned (Some CannotInitializeMerge)"
  proof (cases parsed)
    case (Parsed f)
    show ?thesis
    proof (cases "InFiles f")
      case Nil
      with Parsed show ?thesis by (simp add: joincap_def Let_def)
    next
      case (Cons prog ps)
      with Parsed show ?thesis
        using nil [of ps "\<lparr>previousTimestamp = g, files = [], minTimeHeap = [],
                 writes = [], trace = [EvBanner]\<rparr>"]
        by (auto simp: joincap_def Let_def split: prod.splits)
    qed
  qed (simp_all add: joincap_def)
next
  assume a: "(\<forall>p \<in> set inputFilePaths. skipped e p)
        \<and> \<not> Version cmdFlags \<and> InFiles cmdFlags = prog # inputFilePaths
        \<and> (OutputFilePath cmdFlags = ''-'' \<or> \<not> create_fails e (OutputFilePath cmdFlags))"
  define s0 where "s0 = \<lparr>previousTimestamp = g, files = [], minTimeHeap = [],
                 writes = [], trace = [EvBanner]\<rparr>"
  obtain lt s1 where il: "initLoop e inputFilePaths (LinkTypeNull, s0) = (lt, s1)"
    by (metis prod.exhaust)
  from a initLoop_skipped [of inputFilePaths e LinkTypeNull s0] il
  have s1: "minTimeHeap s1 = []" "writes s1 = []" by (simp_all add: s0_def)
  from initLoop_link_type [of e inputFilePaths LinkTypeNull s0] il
  have lt: "lt = foldl resolve LinkTypeNull (opened_link_types e inputFilePaths)" by simp
  define s2 where "s2 = s1\<lparr>trace := trace s1 @ [EvMerging (length (minTimeHeap s1)),
                                 EvWritingTo (OutputFilePath cmdFlags)]\<rparr>"
  have j: "joincap e (Parsed cmdFlags) g =
      \<lparr>ret = Returned None, fileHeader = Some (maxSnaplen, lt), final = mergeLoop e s2\<rparr>"
    using a il by (auto simp: joincap_def initHeapWithInputFiles_def s0_def s2_def Let_def)
  have m: "mergeLoop e s2 = s2" using s1 by (intro mergeLoop_empty) (simp add: s2_def)
  show "ret (joincap e (Parsed cmdFlags) g) = Returned None" by (simp add: j)
  have "writes s2 = []" using s1 by (simp add: s2_def)
  then show "writes (final (joincap e (Parsed cmdFlags) g)) = []"
    by (simp add: j m)
  show "fileHeader (joincap e (Parsed cmdFlags) g)
              = Some (262144, foldl resolve LinkTypeNull (opened_link_types e inputFilePaths))"
    by (simp add: j lt maxSnaplen_def)
  show "fileHeader (joincap e (Parsed cmdFlags) g) = Some (262144, LinkTypeNull)"
    if "\<forall>p \<in> set inputFilePaths. no_reader e p"
    using initLoop_no_reader [OF that, of LinkTypeNull s0] il
    by (simp add: j maxSnaplen_def)
qed

theorem init_never_fails_witness:
  "skipped header_only ''a.pcap'' \<and> skipped header_only ''b.pcap''
   \<and> ret (joincap header_only (flags_of [''a.pcap'', ''b.pcap'']) 0) = Returned None
   \<and> fileHeader (joincap header_only (flags_of [''a.pcap'', ''b.pcap'']) 0)
       = Some (262144, LinkTypeEthernet)
   \<and> writes (final (joincap header_only (flags_of [''a.pcap'', ''b.pcap'']) 0)) = []"
proof -
  have h: "\<forall>p \<in> set [''a.pcap'', ''b.pcap'']. skipped header_only p"
    by (simp add: skipped_def header_only_def)
  have l: "foldl resolve LinkTypeNull (opened_link_types header_only [''a.pcap'', ''b.pcap''])
             = LinkTypeEthernet"
    by (simp add: header_only_def resolve_def LinkTypeNull_def LinkTypeEthernet_def)
  show ?thesis
    using h l init_never_fails [of header_only "[''a.pcap'', ''b.pcap'']" _ _ 0
      "\<lparr>Verbose = False, Version = False, OutputFilePath = ''-'',
        InFiles = ''joincap'' # [''a.pcap'', ''b.pcap'']\<rparr>" "''joincap''"]
    by (simp add: flags_of_def)
qed

subsection \<open>The baseline and the sink\<close>

text \<open>
  C8. The run does not depend on the value \<open>g\<close> that \<open>previousTimestamp\<close> holds
  when \<open>joincap\<close> is called: the value returned, the file header, the calls of
  \<open>WritePacket\<close> with their results and the trace (which holds every drop and the
  baseline it was decided against) are those of a call in a fresh process, where
  \<open>g = 0\<close>. In particular a second call in the same process, which starts from
  the value the first one left, repeats the first. (The variable is not reset:
  initialization reads do not consult it, and the first write of the run assigns
  it before any other read.)
\<close>

theorem baseline_not_carried_over:
  "ret (joincap e parsed g) = ret (joincap e parsed 0)
   \<and> fileHeader (joincap e parsed g) = fileHeader (joincap e parsed 0)
   \<and> writes (final (joincap e parsed g)) = writes (final (joincap e parsed 0))
   \<and> trace (final (joincap e parsed g)) = trace (final (joincap e parsed 0))
   \<and> ret (joincap e parsed (previousTimestamp (final (joincap e parsed 0))))
       = ret (joincap e parsed 0)
   \<and> fileHeader (joincap e parsed (previousTimestamp (final (joincap e parsed 0))))
       = fileHeader (joincap e parsed 0)
   \<and> writes (final (joincap e parsed (previousTimestamp (final (joincap e parsed 0)))))
       = writes (final (joincap e parsed 0))
   \<and> trace (final (joincap e parsed (previousTimestamp (final (joincap e parsed 0)))))
       = trace (final (joincap e parsed 0))"
  using joincap_previous [of e parsed g 0]
        joincap_previous [of e parsed "previousTimestamp (final (joincap e parsed 0))" 0]
  by (simp add: same_but_previous_def)

text \<open>
  C9. A call of \<open>write\<close> whose \<open>WritePacket\<close> fails still assigns the packet's
  time stamp to \<open>previousTimestamp\<close> and leaves the heap and the readers alone;
  the failure only shows as a log line. Over a whole run, which writes fail makes
  no difference to the value \<open>joincap\<close> returns, to the file header, to the
  packets handed to the writer and their order, or to the rest of the state.
\<close>

theorem write_failure_not_fatal:
  "previousTimestamp (write_packet e p s) = Timestamp p
   \<and> files (write_packet e p s) = files s
   \<and> minTimeHeap (write_packet e p s) = minTimeHeap s
   \<and> (write_fails e (length (writes s)) \<longrightarrow>
        writes (write_packet e p s) = writes s @ [(p, False)]
        \<and> trace (write_packet e p s) = trace s @ [EvWriteError])
   \<and> (fs e' = fs e \<and> create_fails e' = create_fails e \<longrightarrow>
        ret (joincap e' parsed g) = ret (joincap e parsed g)
        \<and> fileHeader (joincap e' parsed g) = fileHeader (joincap e parsed g)
        \<and> same_but_failures (final (joincap e' parsed g)) (final (joincap e parsed g)))"
  using joincap_failures [of e' e parsed g]
  by (simp add: write_packet_def Let_def)

theorem write_failure_not_fatal_witness:
  "write_fails failing_sink (length (writes start_state))
   \<and> previousTimestamp (write_packet failing_sink a_packet start_state) = 10
   \<and> writes (write_packet failing_sink a_packet start_state) = [(a_packet, False)]
   \<and> ret (joincap failing_sink (flags_of [''a.pcap'']) 0)
       = ret (joincap two_records (flags_of [''a.pcap'']) 0)
   \<and> map fst (writes (final (joincap failing_sink (flags_of [''a.pcap'']) 0)))
       = map fst (writes (final (joincap two_records (flags_of [''a.pcap'']) 0)))"
proof -
  have h: "write_fails failing_sink (length (writes start_state))"
    by (simp add: failing_sink_def)
  have eqs: "fs failing_sink = fs two_records \<and> create_fails failing_sink = create_fails two_records"
    by (simp add: failing_sink_def two_records_def)
  show ?thesis
    using h eqs
      write_failure_not_fatal [of failing_sink a_packet start_state two_records
        "flags_of [''a.pcap'']" 0]
    by (simp add: same_but_failures_def a_packet_def start_state_def)
qed

subsection \<open>The heap and the sources\<close>

text \<open>
  C4. When \<open>joincap\<close> enters the outer loop, and at the head of every pass, the
  heap holds one packet for each input that is still open and nothing else: the
  handles in it are pairwise different and are exactly those of the open inputs
  (so initialization pushed exactly one packet per surviving source). A pass
  pops one packet and pushes at most one, read from the input of the popped one.
  Between the pop and the push the heap is the popped heap. The states meant are
  those of the run: the last one is the state \<open>joincap\<close> ends in.
\<close>

theorem heap_one_per_source:
  "one_per_source (loop_entry e cmdFlags g)
   \<and> (\<forall>t \<in> set (mergeStates e (loop_entry e cmdFlags g)).
        one_per_source t
        \<and> (minTimeHeap t \<noteq> [] \<longrightarrow>
             (case heap_Pop (minTimeHeap t) of
                (x, h') \<Rightarrow>
                  mset (minTimeHeap t) = add_mset x (mset h')
                  \<and> (minTimeHeap (outerBody e t) = h'
                       \<or> (\<exists>q. Reader q = Reader x
                              \<and> minTimeHeap (outerBody e t) = heap_Push h' q)))))
   \<and> (merges e cmdFlags \<longrightarrow>
        final (joincap e (Parsed cmdFlags) g) = last (mergeStates e (loop_entry e cmdFlags g)))"
proof (intro conjI ballI impI)
  show "one_per_source (loop_entry e cmdFlags g)" by (rule loop_entry_one_per_source)
  show "one_per_source t" if "t \<in> set (mergeStates e (loop_entry e cmdFlags g))" for t
    using mergeLoop_rule(2) [of one_per_source, OF loop_entry_one_per_source outer_one_per_source]
      that by blast
  show "case heap_Pop (minTimeHeap t) of
                (x, h') \<Rightarrow>
                  mset (minTimeHeap t) = add_mset x (mset h')
                  \<and> (minTimeHeap (outerBody e t) = h'
                       \<or> (\<exists>q. Reader q = Reader x
                              \<and> minTimeHeap (outerBody e t) = heap_Push h' q))"
    if "minTimeHeap t \<noteq> []" for t
    using outerBody_pops_one_pushes_at_most_one(1) [OF that]
      outerBody_pops_one_pushes_at_most_one(2) [OF that, of _ _ e]
    by (auto split: prod.splits)
  show "final (joincap e (Parsed cmdFlags) g) = last (mergeStates e (loop_entry e cmdFlags g))"
    if "merges e cmdFlags"
    using that by (simp add: joincap_merges mergeStates_last)
qed

theorem heap_one_per_source_witness:
  "one_per_source (loop_entry two_records twice 0)
   \<and> list_all one_per_source (mergeStates two_records (loop_entry two_records twice 0))
   \<and> map Reader (minTimeHeap (loop_entry two_records twice 0)) = [0, 1]
   \<and> final (joincap two_records (Parsed twice) 0)
       = last (mergeStates two_records (loop_entry two_records twice 0))"
proof -
  have m: "merges two_records twice" by (simp add: merges_def twice_def two_records_def)
  have h: "map Reader (minTimeHeap (loop_entry two_records twice 0)) = [0, 1]" by code_simp
  show ?thesis using heap_one_per_source [of two_records twice 0] m h
    by (simp add: list_all_iff)
qed

subsection \<open>Counting\<close>

text \<open>
  C2. A capture whose \<open>M\<close> results are all decoded records is merged with itself
  (the same path twice), \<open>joincap\<close> gets as far as the loop, and the run rejects
  no record (no event of an illegal time stamp or of an empty payload). Then
  \<open>WritePacket\<close> is called exactly \<open>2M\<close> times, and what it is handed is, as a
  multiset, the records of the capture taken twice: none is lost and none is
  written more often than it was read. When no write fails the output file holds
  exactly these \<open>2M\<close> records.
\<close>

theorem count_conservation:
  assumes "fs e p = Pcap lt rs" and "list_all decoded rs"
    and "merges e cmdFlags" and "tl (InFiles cmdFlags) = [p, p]"
    and "rejected (trace (final (joincap e (Parsed cmdFlags) g))) = 0"
  shows "length (writes (final (joincap e (Parsed cmdFlags) g))) = 2 * length rs
         \<and> mset (map content (emitted (final (joincap e (Parsed cmdFlags) g))))
             = mset (records rs) + mset (records rs)
         \<and> ((\<forall>n. \<not> write_fails e n) \<longrightarrow>
              length (output_records (final (joincap e (Parsed cmdFlags) g))) = 2 * length rs
              \<and> mset (output_records (final (joincap e (Parsed cmdFlags) g)))
                  = mset (records rs) + mset (records rs))"
proof -
  define t where "t = final (joincap e (Parsed cmdFlags) g)"
  have "filter decoded rs = rs" using assms(2) by (simp add: list_all_iff)
  then have r: "recs rs = length rs" by (simp add: recs_def)
  then have "offered e p = length rs" using assms(1) by (simp add: offered_def)
  with conservation [OF assms(3), of g] assms(4,5)
  have n: "length (writes t) = 2 * length rs" by (simp add: t_def)
  have "mset (map content (emitted t)) \<subseteq># mset (records rs) + mset (records rs)"
    using written_offered [of e cmdFlags g] assms(1,4) by (simp add: t_def offered_records_def)
  moreover have "size (mset (map content (emitted t)))
                   = size (mset (records rs) + mset (records rs))"
    using n r by (simp add: emitted_def length_records)
  ultimately have m: "mset (map content (emitted t)) = mset (records rs) + mset (records rs)"
    by (rule mset_subset_same_size)
  have "length (output_records t) = 2 * length rs
        \<and> mset (output_records t) = mset (records rs) + mset (records rs)"
    if "\<forall>n. \<not> write_fails e n"
  proof -
    from writes_ok [OF that assms(3), of g]
    have "filter snd (writes t) = writes t" by (simp add: list_all_iff t_def)
    then have "output_records t = map content (emitted t)"
      by (simp add: output_records_def emitted_def content_def case_prod_beta)
    then show ?thesis using n m by (simp add: emitted_def)
  qed
  with n m show ?thesis by (simp add: t_def)
qed

theorem count_conservation_witness:
  "list_all decoded [Rec [1] a_ci, Rec [2] fresh_ci]
   \<and> merges two_records twice
   \<and> rejected (trace (final (joincap two_records (Parsed twice) 0))) = 0
   \<and> length (writes (final (joincap two_records (Parsed twice) 0))) = 4
   \<and> mset (output_records (final (joincap two_records (Parsed twice) 0)))
       = {#(a_ci, [1]), (a_ci, [1]), (fresh_ci, [2]), (fresh_ci, [2])#}"
proof -
  have a: "fs two_records ''a.pcap'' = Pcap LinkTypeEthernet [Rec [1] a_ci, Rec [2] fresh_ci]"
    by (simp add: two_records_def)
  have b: "list_all decoded [Rec [1] a_ci, Rec [2] fresh_ci]" by (simp add: decoded_def)
  have c: "merges two_records twice" by (simp add: merges_def twice_def two_records_def)
  have d: "tl (InFiles twice) = [''a.pcap'', ''a.pcap'']" by (simp add: twice_def)
  have r: "rejected (trace (final (joincap two_records (Parsed twice) 0))) = 0" by code_simp
  have w: "\<forall>n. \<not> write_fails two_records n" by (simp add: two_records_def)
  show ?thesis using count_conservation [OF a b c d r] b c r w by simp
qed

subsection \<open>The last source\<close>

text \<open>
  C5 as stated fails: with the heap empty after the pop, \<open>earliestHeapTime\<close> is
  \<open>0\<close>, not unbounded. The only source has records at 10 and at 7200000000000
  nanoseconds; the first pass writes the first and pushes the second into the
  heap instead of writing it.
\<close>

theorem sole_source_pushed:
  "minTimeHeap (loop_entry two_records once 0) = [a_packet]
   \<and> emitted (outerBody two_records (loop_entry two_records once 0)) = [a_packet]
   \<and> minTimeHeap (outerBody two_records (loop_entry two_records once 0))
       = [\<lparr>Timestamp = 7200000000000, CaptureInfo = fresh_ci, Data = [2], Reader = 0\<rparr>]"
  by code_simp

text \<open>
  C5, amended. At the head of a pass with a single packet \<open>p\<close> in the heap, the
  pass runs the inner loop with \<open>earliestHeapTime = 0\<close>. An accepted packet from
  the source of \<open>p\<close> with a time stamp of at most \<open>0\<close> is written by the inner
  loop, which goes on; one with a later time stamp is pushed into the empty heap,
  which ends the inner loop, and the next pass pops it and goes on from it in the
  same way. Either way the run writes, after \<open>p\<close>, exactly the packets this
  source still yields (\<open>drain\<close>), in the order read, whatever their time stamps,
  and nothing else.
\<close>

theorem sole_source_emitted:
  assumes "t \<in> set (mergeStates e (loop_entry e cmdFlags g))" and "minTimeHeap t = [p]"
  shows "outerBody e t = innerLoop e p 0 (write_packet e p (t\<lparr>minTimeHeap := []\<rparr>))
    \<and> (\<forall>u q u'. minTimeHeap u = [] \<and> readNext_at (Reader p) False u = (Some q, u') \<longrightarrow>
          (if Timestamp q \<le>s 0
           then innerLoop e p 0 u = innerLoop e p 0 (write_packet e q u')
           else innerLoop e p 0 u = u'\<lparr>minTimeHeap := [q]\<rparr>
                \<and> outerBody e (u'\<lparr>minTimeHeap := [q]\<rparr>)
                    = innerLoop e q 0 (write_packet e q (u'\<lparr>minTimeHeap := []\<rparr>))))
    \<and> emitted (mergeLoop e t)
        = emitted t @ p # drain (Timestamp p) (Reader p) (unread (files t ! Reader p))
    \<and> (merges e cmdFlags \<longrightarrow>
         emitted (final (joincap e (Parsed cmdFlags) g))
           = emitted t @ p # drain (Timestamp p) (Reader p) (unread (files t ! Reader p)))"
proof (intro conjI allI impI)
  show ob: "outerBody e t = innerLoop e p 0 (write_packet e p (t\<lparr>minTimeHeap := []\<rparr>))"
    using assms(2) by (rule outerBody_single)
  have ops: "one_per_source t"
    using mergeLoop_rule(2) [of one_per_source, OF loop_entry_one_per_source outer_one_per_source]
      assms(1) by blast
  then have hl: "Reader p < length (files t)"
    using assms(2) by (auto simp: one_per_source_def set_survivors)
  define u where "u = write_packet e p (t\<lparr>minTimeHeap := []\<rparr>)"
  have u: "minTimeHeap u = []" "Reader p < length (files u)"
    "files u ! Reader p = files t ! Reader p"
    "previousTimestamp u = Timestamp p" "emitted u = emitted t @ [p]"
    using hl by (simp_all add: u_def write_packet_def Let_def emitted_def)
  have "mergeLoop e t = mergeLoop e (innerLoop e p 0 u)"
    using assms(2) ob by (subst mergeLoop_step) (simp_all add: u_def)
  with sole_source_drained [OF u(1,2), of e] u
  show em: "emitted (mergeLoop e t)
        = emitted t @ p # drain (Timestamp p) (Reader p) (unread (files t ! Reader p))"
    by simp
  show "emitted (final (joincap e (Parsed cmdFlags) g))
           = emitted t @ p # drain (Timestamp p) (Reader p) (unread (files t ! Reader p))"
    if "merges e cmdFlags"
    using em joincap_merges [OF that, of g] mergeStates_mergeLoop [OF assms(1)] by simp
next
  fix u q u'
  assume a: "minTimeHeap u = [] \<and> readNext_at (Reader p) False u = (Some q, u')"
  then have h': "minTimeHeap u' = []" using readNext_at_total(3) [of "Reader p" False u] by simp
  show "if Timestamp q \<le>s 0
           then innerLoop e p 0 u = innerLoop e p 0 (write_packet e q u')
           else innerLoop e p 0 u = u'\<lparr>minTimeHeap := [q]\<rparr>
                \<and> outerBody e (u'\<lparr>minTimeHeap := [q]\<rparr>)
                    = innerLoop e q 0 (write_packet e q (u'\<lparr>minTimeHeap := []\<rparr>))"
    using a h' by (subst innerLoop.simps, subst (3) innerLoop.simps)
      (simp add: heap_Push_empty outerBody_single)
qed

theorem sole_source_emitted_witness:
  "minTimeHeap (loop_entry two_records once 0) = [a_packet]
   \<and> merges two_records once
   \<and> emitted (final (joincap two_records (Parsed once) 0))
       = [a_packet, \<lparr>Timestamp = 7200000000000, CaptureInfo = fresh_ci, Data = [2], Reader = 0\<rparr>]"
proof -
  have mem: "loop_entry two_records once 0
               \<in> set (mergeStates two_records (loop_entry two_records once 0))"
    by (subst mergeStates.simps) simp
  have h: "minTimeHeap (loop_entry two_records once 0) = [a_packet]" by code_simp
  have m: "merges two_records once" by (simp add: merges_def once_def two_records_def)
  have e: "emitted (loop_entry two_records once 0) = []" by (simp add: emitted_def loop_entry_writes)
  have d: "drain (Timestamp a_packet) (Reader a_packet)
             (unread (files (loop_entry two_records once 0) ! Reader a_packet))
           = [\<lparr>Timestamp = 7200000000000, CaptureInfo = fresh_ci, Data = [2], Reader = 0\<rparr>]"
    by code_simp
  show ?thesis using sole_source_emitted [OF mem h] h m e d by simp
qed

subsection \<open>Order of the output\<close>

text \<open>
  C1. When every input that opens is time-ordered (the time stamps of its decoded
  records never decrease), the packets handed to the writer are in time order:
  each is at least as late as the one before it, whatever was dropped in
  between. So are the records that reach the output file (those whose write
  succeeded), by the time stamps of their capture infos.
\<close>

theorem output_time_ordered:
  assumes "\<forall>p \<in> set (tl (InFiles cmdFlags)). time_ordered_input e p"
  shows "sorted (map key (emitted (final (joincap e (Parsed cmdFlags) g))))
    \<and> (\<forall>i. Suc i < length (emitted (final (joincap e (Parsed cmdFlags) g))) \<longrightarrow>
          sint (Timestamp (emitted (final (joincap e (Parsed cmdFlags) g)) ! i))
          \<le> sint (Timestamp (emitted (final (joincap e (Parsed cmdFlags) g)) ! Suc i)))
    \<and> sorted (map (\<lambda>(c, d). sint (UnixNano c))
                (output_records (final (joincap e (Parsed cmdFlags) g))))"
proof -
  define t where "t = final (joincap e (Parsed cmdFlags) g)"
  have w: "merges e cmdFlags \<or> writes t = []"
    using joincap_not_merges [of e cmdFlags g] by (auto simp: t_def)
  have run: "ordered_run t" if "merges e cmdFlags"
  proof -
    have "ordered_run (mergeLoop e (loop_entry e cmdFlags g))"
      by (rule mergeLoop_rule(1) [of ordered_run, OF loop_entry_ordered [OF assms] outer_ordered])
    with joincap_merges [OF that, of g] show ?thesis by (simp add: t_def)
  qed
  have s: "sorted (map key (emitted t))"
    using w run by (auto simp: ordered_run_def emitted_def)
  have ts: "\<forall>p \<in> set (emitted t). Timestamp p = UnixNano (CaptureInfo p)"
    using w run by (auto simp: ordered_run_def emitted_def)
  have adj: "sint (Timestamp (emitted t ! i)) \<le> sint (Timestamp (emitted t ! Suc i))"
    if "Suc i < length (emitted t)" for i
  proof -
    from sorted_nth_mono [OF s, of i "Suc i"] that
    have "map key (emitted t) ! i \<le> map key (emitted t) ! Suc i" by simp
    with that show ?thesis by (simp add: key_def)
  qed
  have "map (\<lambda>(c, d). sint (UnixNano c)) (output_records t)
          = map (key \<circ> fst) (filter snd (writes t))"
    using ts by (auto simp: output_records_def emitted_def key_def)
  moreover have "sorted (map (key \<circ> fst) (filter snd (writes t)))"
    using s sorted_filter [of "key \<circ> fst" "writes t" snd] by (simp add: emitted_def comp_def)
  ultimately show ?thesis using s adj by (simp add: t_def)
qed

theorem output_time_ordered_witness:
  "time_ordered_input ab_env ''a.pcap'' \<and> time_ordered_input ab_env ''b.pcap''
   \<and> map key (emitted (final (joincap ab_env (Parsed ab_flags) 0))) = [10, 15, 20, 25, 30]
   \<and> sorted (map key (emitted (final (joincap ab_env (Parsed ab_flags) 0))))"
proof -
  have a: "time_ordered_input ab_env ''a.pcap''" "time_ordered_input ab_env ''b.pcap''"
    by (simp_all add: time_ordered_input_def ab_env_def time_ordered_def stamped_def)
  then have h: "\<forall>p \<in> set (tl (InFiles ab_flags)). time_ordered_input ab_env p"
    by (simp add: ab_flags_def)
  have v: "map key (emitted (final (joincap ab_env (Parsed ab_flags) 0))) = [10, 15, 20, 25, 30]"
    by code_simp
  show ?thesis using a v output_time_ordered [OF h, of 0] by simp
qed

end
